theory Spec2Isabelle
  imports Main
begin

section \<open>The salvage tool of \<^verbatim>\<open>main.go\<close>, embedded in HOL\<close>

text \<open>
  The program copies every readable key/value pair of a (possibly corrupt) bbolt store
  into a new store. Its three functions \<^verbatim>\<open>recoverSubBucket\<close>, \<^verbatim>\<open>recoverBucket\<close> and
  \<^verbatim>\<open>main\<close> are translated below. The bbolt library is not part of the program: the two
  stores appear as the program observes them through the library's calls.
\<close>

subsection \<open>Byte strings and the staged data\<close>

text \<open>A Go \<^verbatim>\<open>[]byte\<close> that is not nil. A nil slice is never staged: on the source side
  it is the constructor \<open>Marker\<close> below.\<close>

type_synonym bytes = string

text \<open>\<^verbatim>\<open>type kv struct { key, value []byte }\<close>; the field \<^verbatim>\<open>value\<close> is \<open>val\<close>
  here.\<close>

record kv =
  key :: bytes
  val :: bytes

text \<open>\<^verbatim>\<open>type subbucket struct { name []byte; data []kv }\<close>\<close>

record subbucket =
  name :: bytes
  data :: "kv list"

subsection \<open>The source store, as the read calls observe it\<close>

text \<open>
  How a call into the library ends for the caller of \<^verbatim>\<open>ForEach\<close>: the cursor is
  exhausted (\<open>Completed\<close>), the call returns an error value (\<open>Failed\<close>), or it
  panics on a damaged page (\<open>Panicked\<close>). The string is the error text or the panic
  value.
\<close>

datatype ending = Completed | Failed string | Panicked string

text \<open>What \<^verbatim>\<open>tx.Bucket(name)\<close> or \<^verbatim>\<open>b.Bucket(k)\<close> does: it returns the bucket,
  returns nil, or panics.\<close>

datatype 'b lookup = Found 'b | NotFound | LookupPanic string

text \<open>
  A bucket is the sequence of \<open>(k, v)\<close> that \<^verbatim>\<open>ForEach\<close> hands to its callback, in
  order, followed by the way the enumeration ends. An entry is \<open>Value v\<close> when
  \<open>v\<close> is not nil (an empty value is \<open>Value []\<close>), and \<open>Marker l\<close> when \<open>v\<close> is
  nil, with \<open>l\<close> what \<^verbatim>\<open>b.Bucket(k)\<close> would do on that key.
\<close>

datatype bucket = Bucket (entries: "(bytes \<times> entry) list") (ending: ending)
  and entry = Value bytes | Marker "bucket lookup"

text \<open>
  The store: the names the listing transaction of \<^verbatim>\<open>main\<close> yields and how that
  listing ends, and what \<^verbatim>\<open>tx.Bucket\<close> does on a name. The store is opened
  read-only, no call changes it.
\<close>

record src_db =
  names :: "bytes list"
  names_end :: ending
  txBucket :: "bytes \<Rightarrow> bucket lookup"

subsection \<open>What the program prints\<close>

datatype dst_error =
    KeyRequired | KeyTooLarge | ValueTooLarge | IncompatibleValue
  | BucketNameRequired | TxError string

text \<open>One constructor for each \<^verbatim>\<open>Printf\<close> and \<^verbatim>\<open>Fatalf\<close> of the program, with its
  arguments.\<close>

datatype event =
    Usage
  | FatalSource string
  | FatalDestination string
  | FatalListing string
  | Crash string
  | FoundBuckets nat
  | Recovering bytes
  | PanicBucket bytes string nat
  | ReadError bytes string
  | WarnKey dst_error
  | WarnSubBucket bytes dst_error
  | WriteError bytes dst_error
  | BucketOK nat nat
  | PanicSubBucket bytes string nat
  | Summary nat nat nat string

subsection \<open>\<^verbatim>\<open>recoverSubBucket\<close>\<close>

text \<open>The callback of lines 182 to 192 over the entries the enumeration yields: a nil
  value is skipped, anything else is copied and appended to \<^verbatim>\<open>pairs\<close>.\<close>

fun subForEach :: "(bytes \<times> entry) list \<Rightarrow> kv list \<Rightarrow> kv list" where
  "subForEach [] pairs = pairs"
| "subForEach ((k, Marker l) # es) pairs = subForEach es pairs"
| "subForEach ((k, Value v) # es) pairs = subForEach es (pairs @ [\<lparr>key = k, val = v\<rparr>])"

text \<open>
  The error \<^verbatim>\<open>ForEach\<close> returns is dropped (\<^verbatim>\<open>_ =\<close>). A panic is caught by the
  deferred function, which prints and leaves the named result \<^verbatim>\<open>pairs\<close> as it is.
  The result is the staged pairs and what was printed.
\<close>

definition recoverSubBucket :: "bucket \<Rightarrow> bytes \<Rightarrow> kv list \<times> event list" where
  "recoverSubBucket b parentName =
     (let pairs = subForEach (entries b) []
      in case ending b of
           Panicked r \<Rightarrow> (pairs, [PanicSubBucket parentName r (length pairs)])
         | _ \<Rightarrow> (pairs, []))"

subsection \<open>The read transaction of \<^verbatim>\<open>recoverBucket\<close>\<close>

text \<open>
  The callback of lines 108 to 126 over the entries of the top-level bucket
  \<open>bucketName\<close>, with the local variables \<^verbatim>\<open>pairs\<close> and \<^verbatim>\<open>subs\<close> and the text
  printed so far. The callback always returns nil, so the enumeration goes on until
  the entries end or a call panics; \<open>Inl r\<close> is a panic with value \<open>r\<close>, which
  leaves the callback and \<^verbatim>\<open>ForEach\<close>.
\<close>

fun topForEach ::
  "bytes \<Rightarrow> (bytes \<times> entry) list \<Rightarrow> kv list \<Rightarrow> subbucket list \<Rightarrow> event list \<Rightarrow>
     event list \<times> (string + kv list \<times> subbucket list)" where
  "topForEach bucketName [] pairs subs out = (out, Inr (pairs, subs))"
| "topForEach bucketName ((k, Marker (Found sub)) # es) pairs subs out =
     (let (subData, said) = recoverSubBucket sub bucketName
      in topForEach bucketName es pairs (subs @ [\<lparr>name = k, data = subData\<rparr>]) (out @ said))"
| "topForEach bucketName ((k, Marker NotFound) # es) pairs subs out =
     topForEach bucketName es pairs subs out"
| "topForEach bucketName ((k, Marker (LookupPanic r)) # es) pairs subs out = (out, Inl r)"
| "topForEach bucketName ((k, Value v) # es) pairs subs out =
     topForEach bucketName es (pairs @ [\<lparr>key = k, val = v\<rparr>]) subs out"

text \<open>
  The function passed to \<^verbatim>\<open>src.View\<close> (lines 103 to 127). It ends in a panic
  (\<open>Inl\<close>) or returns; on return the caller holds \<^verbatim>\<open>pairs\<close>, \<^verbatim>\<open>subs\<close> and
  \<^verbatim>\<open>err\<close> (\<open>None\<close> for nil). An error of \<^verbatim>\<open>src.View\<close> itself, before the function is
  called, has the effect of a bucket that yields nothing and ends in \<open>Failed\<close>.
\<close>

definition readBucket ::
  "src_db \<Rightarrow> bytes \<Rightarrow> event list \<times> (string + kv list \<times> subbucket list \<times> string option)" where
  "readBucket src bucketName =
     (case txBucket src bucketName of
        LookupPanic r \<Rightarrow> ([], Inl r)
      | NotFound \<Rightarrow> ([], Inr ([], [], Some ''bucket not found''))
      | Found b \<Rightarrow>
          (case topForEach bucketName (entries b) [] [] [] of
             (out, Inl r) \<Rightarrow> (out, Inl r)
           | (out, Inr (pairs, subs)) \<Rightarrow>
               (case ending b of
                  Completed \<Rightarrow> (out, Inr (pairs, subs, None))
                | Failed e \<Rightarrow> (out, Inr (pairs, subs, Some e))
                | Panicked r \<Rightarrow> (out, Inl r))))"

subsection \<open>The destination store, as the write calls use it\<close>

text \<open>
  A bucket of the destination maps a key to a value or to a nested bucket. The root of
  the store is a bucket as well (\<^verbatim>\<open>tx.CreateBucketIfNotExists\<close> is the call on the
  root bucket). The calls on the destination fail by returning an error; they are
  taken not to panic, the store being one the library has written itself.
\<close>

datatype node = Leaf bytes | Sub "bytes \<rightharpoonup> node"

type_synonym dbucket = "bytes \<rightharpoonup> node"

text \<open>How the write transaction of a top-level bucket can fail as a whole: it cannot
  begin (the function is never called), or the commit fails after the function ran.\<close>

datatype tx_fault = BeginFails dst_error | CommitFails dst_error

text \<open>
  The destination handle: the committed contents and the behaviour of the library the
  program cannot see in advance. \<open>putCheck k v\<close> is the error with which \<^verbatim>\<open>Put\<close>
  refuses a key or a value for its format (empty key, size limits), \<open>nameCheck n\<close> the
  one with which a bucket name is refused, and \<open>txFault n\<close> the fate of the
  transaction that \<^verbatim>\<open>recoverBucket\<close> starts for the name \<open>n\<close>.
\<close>

record dst_db =
  root :: dbucket
  putCheck :: "bytes \<Rightarrow> bytes \<Rightarrow> dst_error option"
  nameCheck :: "bytes \<Rightarrow> dst_error option"
  txFault :: "bytes \<Rightarrow> tx_fault option"

text \<open>\<^verbatim>\<open>b.Put(k, v)\<close>: refused for the format, refused when the key names a nested
  bucket, otherwise the key holds the value afterwards.\<close>

definition Put :: "dst_db \<Rightarrow> dbucket \<Rightarrow> bytes \<Rightarrow> bytes \<Rightarrow> dst_error + dbucket" where
  "Put db b k v =
     (case putCheck db k v of
        Some e \<Rightarrow> Inl e
      | None \<Rightarrow>
          (case b k of
             Some (Sub c) \<Rightarrow> Inl IncompatibleValue
           | _ \<Rightarrow> Inr (b(k \<mapsto> Leaf v))))"

text \<open>\<^verbatim>\<open>b.CreateBucketIfNotExists(n)\<close>: the contents of the child the call returns, an
  existing nested bucket or a new empty one. The caller stores the child back under
  \<open>n\<close> once it has written into it.\<close>

definition CreateBucketIfNotExists :: "dst_db \<Rightarrow> dbucket \<Rightarrow> bytes \<Rightarrow> dst_error + dbucket" where
  "CreateBucketIfNotExists db b n =
     (case nameCheck db n of
        Some e \<Rightarrow> Inl e
      | None \<Rightarrow>
          (case b n of
             Some (Leaf v) \<Rightarrow> Inl IncompatibleValue
           | Some (Sub c) \<Rightarrow> Inr c
           | None \<Rightarrow> Inr Map.empty))"

subsection \<open>The write transaction of \<^verbatim>\<open>recoverBucket\<close>\<close>

text \<open>Lines 140 to 146: a refused \<^verbatim>\<open>Put\<close> prints a warning and the loop goes on; the
  counter \<^verbatim>\<open>recovered\<close> moves only after a \<^verbatim>\<open>Put\<close> that returned nil. The counters
  of the program are Go \<^verbatim>\<open>int\<close>s that count entries held in memory; they cannot
  overflow and are natural numbers here.\<close>

fun putPairs ::
  "dst_db \<Rightarrow> kv list \<Rightarrow> dbucket \<Rightarrow> nat \<Rightarrow> event list \<Rightarrow> dbucket \<times> nat \<times> event list" where
  "putPairs db [] b recovered out = (b, recovered, out)"
| "putPairs db (p # ps) b recovered out =
     (case Put db b (key p) (val p) of
        Inl e \<Rightarrow> putPairs db ps b recovered (out @ [WarnKey e])
      | Inr b' \<Rightarrow> putPairs db ps b' (recovered + 1) out)"

text \<open>Lines 154 to 159: the same loop on the entries of a sub-bucket; here a refused
  \<^verbatim>\<open>Put\<close> prints nothing.\<close>

fun putSubPairs :: "dst_db \<Rightarrow> kv list \<Rightarrow> dbucket \<Rightarrow> nat \<Rightarrow> dbucket \<times> nat" where
  "putSubPairs db [] child recovered = (child, recovered)"
| "putSubPairs db (p # ps) child recovered =
     (case Put db child (key p) (val p) of
        Inl e \<Rightarrow> putSubPairs db ps child recovered
      | Inr child' \<Rightarrow> putSubPairs db ps child' (recovered + 1))"

text \<open>Lines 148 to 160: a sub-bucket that cannot be created is skipped with a warning.\<close>

fun putSubs ::
  "dst_db \<Rightarrow> subbucket list \<Rightarrow> dbucket \<Rightarrow> nat \<Rightarrow> event list \<Rightarrow> dbucket \<times> nat \<times> event list" where
  "putSubs db [] b recovered out = (b, recovered, out)"
| "putSubs db (sb # sbs) b recovered out =
     (case CreateBucketIfNotExists db b (name sb) of
        Inl e \<Rightarrow> putSubs db sbs b recovered (out @ [WarnSubBucket (name sb) e])
      | Inr child \<Rightarrow>
          (let (child', recovered') = putSubPairs db (data sb) child recovered
           in putSubs db sbs (b(name sb \<mapsto> Sub child')) recovered' out))"

text \<open>
  The function passed to \<^verbatim>\<open>dst.Update\<close> (lines 134 to 163), run on the root bucket of
  the transaction: the root it leaves, the value of \<^verbatim>\<open>recovered\<close>, the text printed and
  the error returned.
\<close>

definition writeBucket ::
  "dst_db \<Rightarrow> bytes \<Rightarrow> kv list \<Rightarrow> subbucket list \<Rightarrow> dbucket \<Rightarrow>
     dbucket \<times> nat \<times> event list \<times> dst_error option" where
  "writeBucket db bucketName pairs subs r =
     (case CreateBucketIfNotExists db r bucketName of
        Inl e \<Rightarrow> (r, 0, [], Some e)
      | Inr b \<Rightarrow>
          (let (b1, recovered1, out1) = putPairs db pairs b 0 [];
               (b2, recovered2, out2) = putSubs db subs b1 recovered1 out1
           in (r(bucketName \<mapsto> Sub b2), recovered2, out2, None)))"

text \<open>
  \<^verbatim>\<open>dst.Update(fn)\<close>: the transaction commits only when it could begin, the function
  returned nil and the commit succeeded; in every other case the store keeps its
  contents. The counter and the printed text are the program's, they stay as the
  function left them.
\<close>

definition Update ::
  "dst_db \<Rightarrow> tx_fault option \<Rightarrow> (dbucket \<Rightarrow> dbucket \<times> nat \<times> event list \<times> dst_error option) \<Rightarrow>
     dst_db \<times> nat \<times> event list \<times> dst_error option" where
  "Update db fault fn =
     (case fault of
        Some (BeginFails e) \<Rightarrow> (db, 0, [], Some e)
      | _ \<Rightarrow>
          (let (r', recovered, out, err) = fn (root db)
           in case err of
                Some e \<Rightarrow> (db, recovered, out, Some e)
              | None \<Rightarrow>
                  (case fault of
                     Some (CommitFails e) \<Rightarrow> (db, recovered, out, Some e)
                   | _ \<Rightarrow> (db\<lparr>root := r'\<rparr>, recovered, out, None))))"

subsection \<open>\<^verbatim>\<open>recoverBucket\<close>\<close>

text \<open>
  What a call leaves: the destination after it, the two results \<^verbatim>\<open>recovered\<close> and
  \<^verbatim>\<open>ok\<close> of the Go function, and the text it printed.
\<close>

record recovery =
  db_after :: dst_db
  keys_recovered :: nat
  bucket_ok :: bool
  text_printed :: "event list"

text \<open>
  A panic of the read transaction is caught by the deferred function of lines 90 to
  96: the function returns from there, with \<^verbatim>\<open>recovered\<close> still 0 and \<^verbatim>\<open>ok\<close> set to
  false, and lines 129 to 171 do not run.
\<close>

definition recoverBucket :: "src_db \<Rightarrow> dst_db \<Rightarrow> bytes \<Rightarrow> recovery" where
  "recoverBucket src dst bucketName =
     (case readBucket src bucketName of
        (said, Inl r) \<Rightarrow>
          \<lparr>db_after = dst, keys_recovered = 0, bucket_ok = False,
           text_printed = [Recovering bucketName] @ said @ [PanicBucket bucketName r 0]\<rparr>
      | (said, Inr (pairs, subs, err)) \<Rightarrow>
          (let out1 = [Recovering bucketName] @ said @
                 (case err of Some e \<Rightarrow> [ReadError bucketName e] | None \<Rightarrow> []);
               (dst', recovered, said', writeErr) =
                 Update dst (txFault dst bucketName) (writeBucket dst bucketName pairs subs)
           in case writeErr of
                Some e \<Rightarrow>
                  \<lparr>db_after = dst', keys_recovered = recovered, bucket_ok = False,
                   text_printed = out1 @ said' @ [WriteError bucketName e]\<rparr>
              | None \<Rightarrow>
                  \<lparr>db_after = dst', keys_recovered = recovered, bucket_ok = True,
                   text_printed = out1 @ said' @ [BucketOK (length pairs) (length subs)]\<rparr>))"

subsection \<open>\<^verbatim>\<open>main\<close>\<close>

text \<open>The loop of lines 59 to 65.\<close>

fun mainLoop ::
  "src_db \<Rightarrow> bytes list \<Rightarrow> dst_db \<Rightarrow> nat \<Rightarrow> nat \<Rightarrow> event list \<Rightarrow>
     dst_db \<times> nat \<times> nat \<times> event list" where
  "mainLoop src [] dst totalKeys failedBuckets out = (dst, totalKeys, failedBuckets, out)"
| "mainLoop src (bname # rest) dst totalKeys failedBuckets out =
     (let r = recoverBucket src dst bname
      in mainLoop src rest (db_after r) (totalKeys + keys_recovered r)
           (if bucket_ok r then failedBuckets else failedBuckets + 1) (out @ text_printed r))"

text \<open>What a run leaves: the exit status of the process, the text printed, the
  destination store when it was opened, and the counts of the summary when the run
  reached it (total keys, failed buckets, buckets).\<close>

record run =
  exit_status :: nat
  printed :: "event list"
  store :: "dst_db option"
  summary :: "(nat \<times> nat \<times> nat) option"

text \<open>
  \<open>srcOpen\<close> and \<open>dstOpen\<close> are what the two calls of \<^verbatim>\<open>bolt.Open\<close> return.
  \<^verbatim>\<open>log.Fatalf\<close> exits with status 1; the listing transaction has no deferred
  \<^verbatim>\<open>recover\<close>, so a panic there ends the process, with the status 2 of the Go runtime.
\<close>

definition main :: "string list \<Rightarrow> string + src_db \<Rightarrow> string + dst_db \<Rightarrow> run" where
  "main args srcOpen dstOpen =
     (if length args \<noteq> 3 then
        \<lparr>exit_status = 1, printed = [Usage], store = None, summary = None\<rparr>
      else case srcOpen of
        Inl e \<Rightarrow> \<lparr>exit_status = 1, printed = [FatalSource e], store = None, summary = None\<rparr>
      | Inr src \<Rightarrow>
          (case dstOpen of
             Inl e \<Rightarrow>
               \<lparr>exit_status = 1, printed = [FatalDestination e], store = None, summary = None\<rparr>
           | Inr dst \<Rightarrow>
               (case names_end src of
                  Failed e \<Rightarrow>
                    \<lparr>exit_status = 1, printed = [FatalListing e], store = Some dst,
                     summary = None\<rparr>
                | Panicked r \<Rightarrow>
                    \<lparr>exit_status = 2, printed = [Crash r], store = Some dst, summary = None\<rparr>
                | Completed \<Rightarrow>
                    (let bucketNames = names src;
                         (dst', totalKeys, failedBuckets, out) =
                           mainLoop src bucketNames dst 0 0 [FoundBuckets (length bucketNames)]
                     in \<lparr>exit_status = (if failedBuckets > 0 then 1 else 0),
                         printed = out @ [Summary totalKeys failedBuckets (length bucketNames)
                                            (args ! 2)],
                         store = Some dst',
                         summary = Some (totalKeys, failedBuckets, length bucketNames)\<rparr>))))"

section \<open>Notions used in the statements\<close>

text \<open>The value entries among the entries an enumeration yielded, in that order, as
  staged pairs.\<close>

fun valuesOf :: "(bytes \<times> entry) list \<Rightarrow> kv list" where
  "valuesOf [] = []"
| "valuesOf ((k, Value v) # es) = \<lparr>key = k, val = v\<rparr> # valuesOf es"
| "valuesOf ((k, Marker l) # es) = valuesOf es"

text \<open>The panic value of the first marker whose lookup panics, if there is one.\<close>

fun firstPanic :: "(bytes \<times> entry) list \<Rightarrow> string option" where
  "firstPanic [] = None"
| "firstPanic ((k, Marker (LookupPanic r)) # es) = Some r"
| "firstPanic (e # es) = firstPanic es"

text \<open>The sub-buckets that the lookups find among the entries, each with the value
  entries its own enumeration yielded, however that enumeration ended.\<close>

fun subsOf :: "(bytes \<times> entry) list \<Rightarrow> subbucket list" where
  "subsOf [] = []"
| "subsOf ((k, Marker (Found sub)) # es) =
     \<lparr>name = k, data = valuesOf (entries sub)\<rparr> # subsOf es"
| "subsOf (e # es) = subsOf es"

text \<open>The bucket names of the lines \<^verbatim>\<open>Recovering bucket ...\<close> in a printed text: the
  buckets for which \<^verbatim>\<open>recoverBucket\<close> was entered, in order.\<close>

fun visited :: "event list \<Rightarrow> bytes list" where
  "visited [] = []"
| "visited (Recovering n # evs) = n # visited evs"
| "visited (e # evs) = visited evs"

text \<open>The entries of a bucket with the enumeration of every sub-bucket completing
  after the entries it yielded: the same store without the faults of the sub-buckets.\<close>

fun healSubs :: "(bytes \<times> entry) list \<Rightarrow> (bytes \<times> entry) list" where
  "healSubs [] = []"
| "healSubs ((k, Marker (Found sub)) # es) =
     (k, Marker (Found (Bucket (entries sub) Completed))) # healSubs es"
| "healSubs (e # es) = e # healSubs es"

text \<open>A panic leaves the read transaction of the bucket named \<open>n\<close>: the lookup of the
  bucket panics, or the lookup of one of its sub-buckets, or its own enumeration. A
  panic inside the enumeration of a sub-bucket is not among them.\<close>

definition readPanics :: "src_db \<Rightarrow> bytes \<Rightarrow> bool" where
  "readPanics s n =
     (case txBucket s n of
        LookupPanic r \<Rightarrow> True
      | NotFound \<Rightarrow> False
      | Found b \<Rightarrow>
          (case firstPanic (entries b) of
             Some r \<Rightarrow> True
           | None \<Rightarrow> (case ending b of Panicked r \<Rightarrow> True | _ \<Rightarrow> False)))"

text \<open>The write transaction for the name \<open>n\<close> returns an error: the transaction
  fails as a whole, or the bucket name is refused.\<close>

definition writeFails :: "dst_db \<Rightarrow> bytes \<Rightarrow> bool" where
  "writeFails d n = (txFault d n \<noteq> None \<or> nameCheck d n \<noteq> None)"

text \<open>
  The key/value entries present in a destination: in a bucket, the keys that hold a
  value, directly or in one of its sub-buckets; in a store, the entries of its
  top-level buckets. The program never writes deeper than that.
\<close>

definition leafKeys :: "dbucket \<Rightarrow> bytes set" where
  "leafKeys b = {k. \<exists>v. b k = Some (Leaf v)}"

definition subKeys :: "dbucket \<Rightarrow> bytes set" where
  "subKeys b = {k. \<exists>c. b k = Some (Sub c)}"

definition subAt :: "dbucket \<Rightarrow> bytes \<Rightarrow> dbucket" where
  "subAt b k = (case b k of Some (Sub c) \<Rightarrow> c | _ \<Rightarrow> Map.empty)"

definition bucketEntries :: "dbucket \<Rightarrow> nat" where
  "bucketEntries b = card (leafKeys b) + (\<Sum>s \<in> subKeys b. card (leafKeys (subAt b s)))"

definition storeEntries :: "dbucket \<Rightarrow> nat" where
  "storeEntries r = (\<Sum>B \<in> subKeys r. bucketEntries (subAt r B))"

text \<open>No key is yielded twice: the listed names are distinct, and so are the keys of
  every listed bucket and of each of its sub-buckets.\<close>

fun subsDistinct :: "(bytes \<times> entry) list \<Rightarrow> bool" where
  "subsDistinct [] = True"
| "subsDistinct ((k, Marker (Found sub)) # es) =
     (distinct (map fst (entries sub)) \<and> subsDistinct es)"
| "subsDistinct (e # es) = subsDistinct es"

definition noRepeatedKey :: "src_db \<Rightarrow> bool" where
  "noRepeatedKey s =
     (distinct (names s) \<and>
      (\<forall>n \<in> set (names s).
         case txBucket s n of
           Found b \<Rightarrow> distinct (map fst (entries b)) \<and> subsDistinct (entries b)
         | _ \<Rightarrow> True))"

text \<open>The number of value entries that the bucket named \<open>n\<close> and its sub-buckets
  yield.\<close>

definition stagedCount :: "src_db \<Rightarrow> bytes \<Rightarrow> nat" where
  "stagedCount s n =
     (case txBucket s n of
        Found b \<Rightarrow>
          length (valuesOf (entries b)) +
          sum_list (map (\<lambda>sb. length (data sb)) (subsOf (entries b)))
      | _ \<Rightarrow> 0)"

subsection \<open>Example stores\<close>

text \<open>A destination created fresh, with the format rules of bbolt that matter here: an
  empty key and an empty bucket name are refused; no transaction fails.\<close>

definition freshDst :: dst_db where
  "freshDst =
     \<lparr>root = Map.empty,
      putCheck = (\<lambda>k v. if k = [] then Some KeyRequired else None),
      nameCheck = (\<lambda>n. if n = [] then Some BucketNameRequired else None),
      txFault = (\<lambda>n. None)\<rparr>"

text \<open>The scenario of the specification: buckets \<open>a\<close> and \<open>b\<close>; the enumeration of
  \<open>b\<close> panics after it yielded one entry. \<open>healthyAB\<close> is the same store with the
  enumeration of \<open>b\<close> completing.\<close>

definition faultyAB :: src_db where
  "faultyAB =
     \<lparr>names = [''a'', ''b''], names_end = Completed,
      txBucket = (\<lambda>n.
        if n = ''a'' then Found (Bucket [(''k1'', Value ''v1''), (''k2'', Value ''v2'')] Completed)
        else if n = ''b'' then Found (Bucket [(''k3'', Value ''v3'')] (Panicked ''page 202''))
        else NotFound)\<rparr>"

definition healthyAB :: src_db where
  "healthyAB =
     \<lparr>names = [''a'', ''b''], names_end = Completed,
      txBucket = (\<lambda>n.
        if n = ''a'' then Found (Bucket [(''k1'', Value ''v1''), (''k2'', Value ''v2'')] Completed)
        else if n = ''b'' then Found (Bucket [(''k3'', Value ''v3'')] Completed)
        else NotFound)\<rparr>"

text \<open>A store whose bucket \<open>settings\<close> holds a value, a sub-bucket whose enumeration
  panics after one entry, and a sub-bucket with an empty value; the name \<open>ghost\<close> is
  listed, but the bucket is not found when it is opened. \<open>settingsHealed\<close> is the same
  store with the enumeration of the first sub-bucket completing.\<close>

definition settings :: src_db where
  "settings =
     \<lparr>names = [''settings'', ''ghost''], names_end = Completed,
      txBucket = (\<lambda>n.
        if n = ''settings'' then
          Found (Bucket
            [(''version'', Value ''2''),
             (''ldap'', Marker (Found (Bucket [(''url'', Value ''x'')] (Panicked ''page 202'')))),
             (''oauth'', Marker (Found (Bucket [(''id'', Value [])] Completed)))]
            Completed)
        else NotFound)\<rparr>"

definition settingsHealed :: src_db where
  "settingsHealed =
     \<lparr>names = [''settings'', ''ghost''], names_end = Completed,
      txBucket = (\<lambda>n.
        if n = ''settings'' then
          Found (Bucket
            [(''version'', Value ''2''),
             (''ldap'', Marker (Found (Bucket [(''url'', Value ''x'')] Completed))),
             (''oauth'', Marker (Found (Bucket [(''id'', Value [])] Completed)))]
            Completed)
        else NotFound)\<rparr>"

text \<open>A store with a bucket nested two levels deep, under \<open>stacks\<close> and \<open>env\<close>, and
  the same store without that innermost bucket.\<close>

definition deepSrc :: src_db where
  "deepSrc =
     \<lparr>names = [''stacks''], names_end = Completed,
      txBucket = (\<lambda>n.
        if n = ''stacks'' then
          Found (Bucket
            [(''env'', Marker (Found (Bucket
                [(''a'', Value ''1''),
                 (''inner'', Marker (Found (Bucket [(''secret'', Value ''s'')] Completed))),
                 (''b'', Value ''2'')]
                Completed)))]
            Completed)
        else NotFound)\<rparr>"

definition shallowSrc :: src_db where
  "shallowSrc =
     \<lparr>names = [''stacks''], names_end = Completed,
      txBucket = (\<lambda>n.
        if n = ''stacks'' then
          Found (Bucket
            [(''env'', Marker (Found (Bucket
                [(''a'', Value ''1''), (''b'', Value ''2'')] Completed)))]
            Completed)
        else NotFound)\<rparr>"

text \<open>The command line of a run.\<close>

definition salvageArgs :: "string list" where
  "salvageArgs = [''salvage'', ''in.db'', ''out.db'']"

text \<open>A store with an empty value directly in a top-level bucket and an empty value
  in a sub-bucket.\<close>

definition emptyVals :: src_db where
  "emptyVals =
     \<lparr>names = [''cfg''], names_end = Completed,
      txBucket = (\<lambda>n.
        if n = ''cfg'' then
          Found (Bucket
            [(''motd'', Value []),
             (''sub'', Marker (Found (Bucket [(''flag'', Value [])] Completed)))]
            Completed)
        else NotFound)\<rparr>"

text \<open>A damaged store whose enumerations yield an empty key, once directly in the
  bucket \<open>b\<close> and once in its sub-bucket \<open>s\<close>. The destination refuses an empty
  key.\<close>

definition emptyKeys :: src_db where
  "emptyKeys =
     \<lparr>names = [''b''], names_end = Completed,
      txBucket = (\<lambda>n.
        if n = ''b'' then
          Found (Bucket
            [([], Value ''x''), (''k'', Value ''v''),
             (''s'', Marker (Found (Bucket [([], Value ''y''), (''j'', Value ''w'')] Completed)))]
            Completed)
        else NotFound)\<rparr>"

text \<open>A fresh destination on a full disk: the transaction for the bucket \<open>a\<close> fails
  at its commit.\<close>

definition fullDisk :: dst_db where
  "fullDisk =
     \<lparr>root = Map.empty,
      putCheck = (\<lambda>k v. if k = [] then Some KeyRequired else None),
      nameCheck = (\<lambda>n. if n = [] then Some BucketNameRequired else None),
      txFault = (\<lambda>n. if n = ''a'' then Some (CommitFails (TxError ''disk full'')) else None)\<rparr>"

text \<open>A fresh destination in which no transaction can be committed, and one in
  which only the transaction for the bucket \<open>ghost\<close> cannot.\<close>

definition noCommit :: dst_db where
  "noCommit =
     \<lparr>root = Map.empty,
      putCheck = (\<lambda>k v. if k = [] then Some KeyRequired else None),
      nameCheck = (\<lambda>n. if n = [] then Some BucketNameRequired else None),
      txFault = (\<lambda>n. Some (CommitFails (TxError ''disk full'')))\<rparr>"

definition ghostDisk :: dst_db where
  "ghostDisk =
     \<lparr>root = Map.empty,
      putCheck = (\<lambda>k v. if k = [] then Some KeyRequired else None),
      nameCheck = (\<lambda>n. if n = [] then Some BucketNameRequired else None),
      txFault = (\<lambda>n. if n = ''ghost'' then Some (CommitFails (TxError ''disk full''))
                      else None)\<rparr>"

text \<open>A damaged store whose bucket \<open>cfg\<close> yields an empty value under an empty key,
  next to an empty value under the key \<open>motd\<close>.\<close>

definition emptyKeyVal :: src_db where
  "emptyKeyVal =
     \<lparr>names = [''cfg''], names_end = Completed,
      txBucket = (\<lambda>n.
        if n = ''cfg'' then Found (Bucket [([], Value []), (''motd'', Value [])] Completed)
        else NotFound)\<rparr>"

section \<open>What is staged from the source\<close>

lemma subForEach_values: "subForEach es acc = acc @ valuesOf es"
  by (induction es acc rule: subForEach.induct) auto

lemma recoverSubBucket_pairs: "fst (recoverSubBucket b p) = valuesOf (entries b)"
  by (simp add: recoverSubBucket_def subForEach_values Let_def split: ending.splits)

lemma topForEach_staged:
  "snd (topForEach bn es pairs subs out) =
     (case firstPanic es of Some r \<Rightarrow> Inl r
      | None \<Rightarrow> Inr (pairs @ valuesOf es, subs @ subsOf es))"
proof (induction bn es pairs subs out rule: topForEach.induct)
  case (2 bn k sub es pairs subs out)
  obtain d p where r: "recoverSubBucket sub bn = (d, p)" by (cases "recoverSubBucket sub bn")
  then have d: "d = valuesOf (entries sub)" using recoverSubBucket_pairs [of sub bn] by simp
  have "snd (topForEach bn es pairs (subs @ [\<lparr>name = k, data = d\<rparr>]) (out @ p)) =
     (case firstPanic es of Some r \<Rightarrow> Inl r
      | None \<Rightarrow> Inr (pairs @ valuesOf es, (subs @ [\<lparr>name = k, data = d\<rparr>]) @ subsOf es))"
    using 2 [OF r [symmetric] refl] .
  then show ?case using r d by (simp split: option.splits)
qed (simp_all split: option.splits)

lemma readBucket_staged:
  "snd (readBucket src B) =
     (case txBucket src B of
        LookupPanic r \<Rightarrow> Inl r
      | NotFound \<Rightarrow> Inr ([], [], Some ''bucket not found'')
      | Found b \<Rightarrow>
          (case firstPanic (entries b) of
             Some r \<Rightarrow> Inl r
           | None \<Rightarrow>
               (case ending b of
                  Completed \<Rightarrow> Inr (valuesOf (entries b), subsOf (entries b), None)
                | Failed e \<Rightarrow> Inr (valuesOf (entries b), subsOf (entries b), Some e)
                | Panicked r \<Rightarrow> Inl r)))"
proof (cases "txBucket src B")
  case (Found b)
  obtain out res where t: "topForEach B (entries b) [] [] [] = (out, res)"
    by (cases "topForEach B (entries b) [] [] []")
  have "res = (case firstPanic (entries b) of Some r \<Rightarrow> Inl r
      | None \<Rightarrow> Inr (valuesOf (entries b), subsOf (entries b)))"
    using topForEach_staged [of B "entries b" "[]" "[]" "[]"] t by (simp split: option.splits)
  then show ?thesis using Found t
    by (simp add: readBucket_def split: option.splits ending.splits)
qed (simp_all add: readBucket_def)

lemma readBucket_cong: "txBucket s1 B = txBucket s2 B \<Longrightarrow> readBucket s1 B = readBucket s2 B"
  by (simp add: readBucket_def)

lemma recoverBucket_panic:
  assumes "snd (readBucket src B) = Inl r"
  shows "recoverBucket src dst B =
    \<lparr>db_after = dst, keys_recovered = 0, bucket_ok = False,
     text_printed = [Recovering B] @ fst (readBucket src B) @ [PanicBucket B r 0]\<rparr>"
proof -
  obtain said where "readBucket src B = (said, Inl r)"
    using assms by (cases "readBucket src B") simp
  then show ?thesis by (simp add: recoverBucket_def)
qed

lemma recoverBucket_write:
  assumes "snd (readBucket src B) = Inr (pairs, subs, err)"
    and "Update dst (txFault dst B) (writeBucket dst B pairs subs) = (dst', n, said', werr)"
  shows "db_after (recoverBucket src dst B) = dst'"
    and "keys_recovered (recoverBucket src dst B) = n"
    and "bucket_ok (recoverBucket src dst B) = (werr = None)"
proof -
  obtain said where "readBucket src B = (said, Inr (pairs, subs, err))"
    using assms(1) by (cases "readBucket src B") simp
  then show "db_after (recoverBucket src dst B) = dst'"
    and "keys_recovered (recoverBucket src dst B) = n"
    and "bucket_ok (recoverBucket src dst B) = (werr = None)"
    using assms(2) by (simp_all add: recoverBucket_def split: option.splits)
qed

lemma Update_env:
  "putCheck (fst (Update db f fn)) = putCheck db"
  "nameCheck (fst (Update db f fn)) = nameCheck db"
  "txFault (fst (Update db f fn)) = txFault db"
  by (simp_all add: Update_def Let_def split: option.splits tx_fault.splits prod.splits)

lemma recoverBucket_dst:
  "db_after (recoverBucket src dst B) =
     (case snd (readBucket src B) of
        Inl r \<Rightarrow> dst
      | Inr (pairs, subs, err) \<Rightarrow> fst (Update dst (txFault dst B) (writeBucket dst B pairs subs)))"
proof (cases "snd (readBucket src B)")
  case (Inl r)
  then show ?thesis by (simp add: recoverBucket_panic)
next
  case (Inr x)
  obtain pairs subs err where x: "x = (pairs, subs, err)" by (cases x)
  obtain dst' n said' werr where
    u: "Update dst (txFault dst B) (writeBucket dst B pairs subs) = (dst', n, said', werr)"
    by (cases "Update dst (txFault dst B) (writeBucket dst B pairs subs)")
  show ?thesis using recoverBucket_write(1) [OF Inr [unfolded x] u] Inr x u by simp
qed

lemma recoverBucket_env:
  "putCheck (db_after (recoverBucket src dst B)) = putCheck dst"
  "nameCheck (db_after (recoverBucket src dst B)) = nameCheck dst"
  "txFault (db_after (recoverBucket src dst B)) = txFault dst"
  by (simp_all add: recoverBucket_dst Update_env split: sum.splits prod.splits)

lemma writeBucket_frame: "n \<noteq> B \<Longrightarrow> fst (writeBucket db B ps ss r) n = r n"
  by (simp add: writeBucket_def Let_def split: sum.splits prod.splits)

lemma Update_root:
  "root (fst (Update db f fn)) = root db \<or> root (fst (Update db f fn)) = fst (fn (root db))"
  by (simp add: Update_def Let_def split: option.splits tx_fault.splits prod.splits)

lemma recoverBucket_frame:
  assumes "n \<noteq> B"
  shows "root (db_after (recoverBucket src dst B)) n = root dst n"
proof (cases "snd (readBucket src B)")
  case (Inl r)
  then show ?thesis by (simp add: recoverBucket_dst)
next
  case (Inr x)
  obtain pairs subs err where x: "x = (pairs, subs, err)" by (cases x)
  show ?thesis
    using Update_root [of dst "txFault dst B" "writeBucket dst B pairs subs"]
      writeBucket_frame [OF assms, of dst pairs subs "root dst"] Inr x
    by (auto simp: recoverBucket_dst)
qed

section \<open>A call of \<^verbatim>\<open>recoverBucket\<close> touches one bucket of the destination\<close>

lemma Put_cong: "putCheck d1 = putCheck d2 \<Longrightarrow> Put d1 = Put d2"
  by (intro ext) (simp add: Put_def)

lemma CreateBucketIfNotExists_cong:
  "nameCheck d1 = nameCheck d2 \<Longrightarrow> CreateBucketIfNotExists d1 = CreateBucketIfNotExists d2"
  by (intro ext) (simp add: CreateBucketIfNotExists_def)

lemma putPairs_cong:
  "putCheck d1 = putCheck d2 \<Longrightarrow> putPairs d1 ps b n out = putPairs d2 ps b n out"
  by (induction ps arbitrary: b n out) (simp_all add: Put_cong [of d1 d2] split: sum.splits)

lemma putSubPairs_cong:
  "putCheck d1 = putCheck d2 \<Longrightarrow> putSubPairs d1 ps b n = putSubPairs d2 ps b n"
  by (induction ps arbitrary: b n) (simp_all add: Put_cong [of d1 d2] split: sum.splits)

lemma putSubs_cong:
  "putCheck d1 = putCheck d2 \<Longrightarrow> nameCheck d1 = nameCheck d2 \<Longrightarrow>
     putSubs d1 ss b n out = putSubs d2 ss b n out"
  by (induction ss arbitrary: b n out)
    (simp_all add: CreateBucketIfNotExists_cong [of d1 d2] putSubPairs_cong [of d1 d2]
      split: sum.splits prod.splits)

lemma writeBucket_local:
  assumes "r1 B = r2 B" "putCheck d1 = putCheck d2" "nameCheck d1 = nameCheck d2"
  shows "fst (writeBucket d1 B ps ss r1) B = fst (writeBucket d2 B ps ss r2) B"
    and "snd (writeBucket d1 B ps ss r1) = snd (writeBucket d2 B ps ss r2)"
  using assms
  by (simp_all add: writeBucket_def CreateBucketIfNotExists_def putPairs_cong [of d1 d2]
      putSubs_cong [of d1 d2] Let_def split: option.splits node.splits prod.splits)

lemma Update_local:
  assumes "fst (fn1 (root d1)) B = fst (fn2 (root d2)) B"
    and "snd (fn1 (root d1)) = snd (fn2 (root d2))" and "root d1 B = root d2 B"
  shows "root (fst (Update d1 f fn1)) B = root (fst (Update d2 f fn2)) B"
    and "snd (Update d1 f fn1) = snd (Update d2 f fn2)"
  using assms
  by (auto simp: Update_def Let_def split: option.splits tx_fault.splits prod.splits)

lemma recoverBucket_local:
  assumes "txBucket s1 B = txBucket s2 B" and "root d1 B = root d2 B"
    and "putCheck d1 = putCheck d2" and "nameCheck d1 = nameCheck d2"
    and "txFault d1 B = txFault d2 B"
  shows "root (db_after (recoverBucket s1 d1 B)) B = root (db_after (recoverBucket s2 d2 B)) B \<and>
     keys_recovered (recoverBucket s1 d1 B) = keys_recovered (recoverBucket s2 d2 B) \<and>
     bucket_ok (recoverBucket s1 d1 B) = bucket_ok (recoverBucket s2 d2 B) \<and>
     text_printed (recoverBucket s1 d1 B) = text_printed (recoverBucket s2 d2 B)"
proof -
  have rd: "readBucket s1 B = readBucket s2 B" using assms(1) by (rule readBucket_cong)
  obtain said res where r: "readBucket s2 B = (said, res)" by (cases "readBucket s2 B")
  show ?thesis
  proof (cases res)
    case (Inl p)
    then show ?thesis using rd r assms(2) by (simp add: recoverBucket_def)
  next
    case (Inr x)
    obtain pairs subs err where x: "x = (pairs, subs, err)" by (cases x)
    have w: "fst (writeBucket d1 B pairs subs (root d1)) B = fst (writeBucket d2 B pairs subs (root d2)) B"
      "snd (writeBucket d1 B pairs subs (root d1)) = snd (writeBucket d2 B pairs subs (root d2))"
      using assms(2,3,4) by (rule writeBucket_local [where ?r1.0 = "root d1" and ?r2.0 = "root d2"])+
    have u: "root (fst (Update d1 (txFault d2 B) (writeBucket d1 B pairs subs))) B =
         root (fst (Update d2 (txFault d2 B) (writeBucket d2 B pairs subs))) B"
      "snd (Update d1 (txFault d2 B) (writeBucket d1 B pairs subs)) =
         snd (Update d2 (txFault d2 B) (writeBucket d2 B pairs subs))"
      using w assms(2) by (rule Update_local)+
    obtain a1 n1 o1 e1 where u1: "Update d1 (txFault d2 B) (writeBucket d1 B pairs subs) = (a1, n1, o1, e1)"
      by (cases "Update d1 (txFault d2 B) (writeBucket d1 B pairs subs)")
    obtain a2 n2 o2 e2 where u2: "Update d2 (txFault d2 B) (writeBucket d2 B pairs subs) = (a2, n2, o2, e2)"
      by (cases "Update d2 (txFault d2 B) (writeBucket d2 B pairs subs)")
    from u u1 u2 have eq: "root a1 B = root a2 B" "n1 = n2" "o1 = o2" "e1 = e2" by simp_all
    show ?thesis
      using rd r Inr x u1 u2 eq assms(5)
      by (simp add: recoverBucket_def split: option.splits)
  qed
qed

section \<open>The loop of \<^verbatim>\<open>main\<close> visits every listed bucket\<close>

lemma visited_append: "visited (xs @ ys) = visited xs @ visited ys"
  by (induction xs rule: visited.induct) simp_all

lemma recoverSubBucket_visited: "visited (snd (recoverSubBucket b p)) = []"
  by (simp add: recoverSubBucket_def Let_def split: ending.splits)

lemma topForEach_visited: "visited (fst (topForEach bn es ps ss out)) = visited out"
proof (induction bn es ps ss out rule: topForEach.induct)
  case (2 bn k sub es pairs subs out)
  obtain d p where r: "recoverSubBucket sub bn = (d, p)" by (cases "recoverSubBucket sub bn")
  then have "visited p = []" using recoverSubBucket_visited [of sub bn] by simp
  then show ?case using 2 [OF r [symmetric] refl] r by (simp add: visited_append)
qed simp_all

lemma readBucket_visited: "visited (fst (readBucket s n)) = []"
proof (cases "txBucket s n")
  case (Found b)
  obtain out res where t: "topForEach n (entries b) [] [] [] = (out, res)"
    by (cases "topForEach n (entries b) [] [] []")
  then have "visited out = []" using topForEach_visited [of n "entries b" "[]" "[]" "[]"] by simp
  then show ?thesis using Found t
    by (simp add: readBucket_def split: sum.splits ending.splits)
qed (simp_all add: readBucket_def)

lemma putPairs_visited: "visited (snd (snd (putPairs db ps b n out))) = visited out"
  by (induction ps arbitrary: b n out) (simp_all add: visited_append split: sum.splits)

lemma putSubs_visited: "visited (snd (snd (putSubs db ss b n out))) = visited out"
  by (induction ss arbitrary: b n out)
    (simp_all add: visited_append split: sum.splits prod.splits)

lemma writeBucket_visited: "visited (fst (snd (snd (writeBucket db B ps ss r)))) = []"
proof (cases "CreateBucketIfNotExists db r B")
  case (Inl e)
  then show ?thesis by (simp add: writeBucket_def)
next
  case (Inr b)
  obtain b1 n1 o1 where p: "putPairs db ps b 0 [] = (b1, n1, o1)"
    by (cases "putPairs db ps b 0 []")
  obtain b2 n2 o2 where q: "putSubs db ss b1 n1 o1 = (b2, n2, o2)"
    by (cases "putSubs db ss b1 n1 o1")
  have "visited o1 = []" using putPairs_visited [of db ps b 0 "[]"] p by simp
  then have "visited o2 = []" using putSubs_visited [of db ss b1 n1 o1] q by simp
  then show ?thesis using Inr p q by (simp add: writeBucket_def)
qed

lemma Update_visited:
  "visited (fst (snd (snd (fn (root db))))) = [] \<Longrightarrow>
     visited (fst (snd (snd (Update db f fn)))) = []"
  by (auto simp: Update_def Let_def split: option.splits tx_fault.splits prod.splits)

lemma recoverBucket_visited: "visited (text_printed (recoverBucket s d n)) = [n]"
proof -
  obtain said res where r: "readBucket s n = (said, res)" by (cases "readBucket s n")
  then have s: "visited said = []" using readBucket_visited [of s n] by simp
  show ?thesis
  proof (cases res)
    case (Inl p)
    then show ?thesis using r s by (simp add: recoverBucket_def visited_append)
  next
    case (Inr x)
    obtain pairs subs err where x: "x = (pairs, subs, err)" by (cases x)
    obtain a k said' e where
      u: "Update d (txFault d n) (writeBucket d n pairs subs) = (a, k, said', e)"
      by (cases "Update d (txFault d n) (writeBucket d n pairs subs)")
    have "visited said' = []"
      using Update_visited [of "writeBucket d n pairs subs" d "txFault d n"]
        writeBucket_visited [of d n pairs subs "root d"] u by simp
    then show ?thesis using r s Inr x u
      by (simp add: recoverBucket_def visited_append split: option.splits)
  qed
qed

lemma mainLoop_visited:
  "visited (snd (snd (snd (mainLoop s ns d t f out)))) = visited out @ ns"
  by (induction ns arbitrary: d t f out)
    (simp_all add: Let_def visited_append recoverBucket_visited)

lemma mainLoop_isolated:
  assumes "\<forall>m. m \<noteq> B \<longrightarrow> txBucket s' m = txBucket s m"
    and "putCheck d1 = putCheck d2" and "nameCheck d1 = nameCheck d2"
    and "txFault d1 = txFault d2" and "n \<noteq> B" and "root d1 n = root d2 n"
  shows "root (fst (mainLoop s ns d1 t1 f1 o1)) n = root (fst (mainLoop s' ns d2 t2 f2 o2)) n"
  using assms(2,3,4,6)
proof (induction ns arbitrary: d1 d2 t1 f1 o1 t2 f2 o2)
  case Nil
  then show ?case by simp
next
  case (Cons m ns)
  let ?r1 = "recoverBucket s d1 m" and ?r2 = "recoverBucket s' d2 m"
  have env: "putCheck (db_after ?r1) = putCheck (db_after ?r2)"
    "nameCheck (db_after ?r1) = nameCheck (db_after ?r2)"
    "txFault (db_after ?r1) = txFault (db_after ?r2)"
    using Cons.prems by (simp_all add: recoverBucket_env)
  have "root (db_after ?r1) n = root (db_after ?r2) n"
  proof (cases "m = n")
    case True
    have "txBucket s n = txBucket s' n" using assms(1,5) by simp
    then show ?thesis
      using recoverBucket_local [of s n s' d1 d2] Cons.prems True by simp
  next
    case False
    then show ?thesis using Cons.prems by (simp add: recoverBucket_frame)
  qed
  then show ?case using Cons.IH [OF env] by (simp add: Let_def)
qed

lemma healSubs_same:
  "firstPanic (healSubs es) = firstPanic es"
  "valuesOf (healSubs es) = valuesOf es"
  "subsOf (healSubs es) = subsOf es"
  by (induction es rule: healSubs.induct) simp_all

lemma recoverBucket_read:
  assumes "snd (readBucket s1 B) = snd (readBucket s2 B)"
  shows "db_after (recoverBucket s1 d B) = db_after (recoverBucket s2 d B) \<and>
     keys_recovered (recoverBucket s1 d B) = keys_recovered (recoverBucket s2 d B) \<and>
     bucket_ok (recoverBucket s1 d B) = bucket_ok (recoverBucket s2 d B)"
proof (cases "snd (readBucket s2 B)")
  case (Inl r)
  then show ?thesis using assms by (simp add: recoverBucket_panic)
next
  case (Inr x)
  obtain pairs subs err where x: "x = (pairs, subs, err)" by (cases x)
  obtain dst' n said' werr where
    u: "Update d (txFault d B) (writeBucket d B pairs subs) = (dst', n, said', werr)"
    by (cases "Update d (txFault d B) (writeBucket d B pairs subs)")
  have 1: "snd (readBucket s1 B) = Inr (pairs, subs, err)" using assms Inr x by simp
  have 2: "snd (readBucket s2 B) = Inr (pairs, subs, err)" using Inr x by simp
  show ?thesis using recoverBucket_write [OF 1 u] recoverBucket_write [OF 2 u] by simp
qed

lemma topForEach_append:
  "topForEach bn (pre @ es) ps ss out =
     (case topForEach bn pre ps ss out of
        (out', Inl r) \<Rightarrow> (out', Inl r)
      | (out', Inr (ps', ss')) \<Rightarrow> topForEach bn es ps' ss' out')"
  by (induction bn pre ps ss out rule: topForEach.induct) (simp_all split: prod.splits)

lemma subForEach_append: "subForEach (es1 @ es2) acc = subForEach es2 (subForEach es1 acc)"
  by (induction es1 acc rule: subForEach.induct) simp_all

lemma recoverSubBucket_skips_marker:
  "recoverSubBucket (Bucket (es1 @ (k, Marker l) # es2) en) p =
     recoverSubBucket (Bucket (es1 @ es2) en) p"
  by (simp add: recoverSubBucket_def subForEach_append)

lemma recoverBucket_returned:
  assumes "readBucket src B = (said, Inr (pairs, subs, err))"
    and "Update dst (txFault dst B) (writeBucket dst B pairs subs) = (dst', n, said', werr)"
  shows "recoverBucket src dst B =
     \<lparr>db_after = dst', keys_recovered = n, bucket_ok = (werr = None),
      text_printed = [Recovering B] @ said @
        (case err of Some e \<Rightarrow> [ReadError B e] | None \<Rightarrow> []) @ said' @
        [case werr of Some e \<Rightarrow> WriteError B e
         | None \<Rightarrow> BucketOK (length pairs) (length subs)]\<rparr>"
  using assms by (simp add: recoverBucket_def split: option.splits)

lemma Update_commits:
  assumes "fn (root db) = (r', n, out, None)"
  shows "Update db None fn = (db\<lparr>root := r'\<rparr>, n, out, None)"
  using assms by (simp add: Update_def)

section \<open>When a bucket counts as failed\<close>

lemma readPanics_iff: "readPanics s n \<longleftrightarrow> (\<exists>r. snd (readBucket s n) = Inl r)"
  by (simp add: readPanics_def readBucket_staged split: lookup.splits option.splits ending.splits)

lemma writeBucket_created:
  assumes "nameCheck db B = None" and "\<forall>v. r B \<noteq> Some (Leaf v)"
  shows "\<exists>b n out. writeBucket db B ps ss r = (r(B \<mapsto> Sub b), n, out, None)"
proof -
  have "\<exists>c. CreateBucketIfNotExists db r B = Inr c"
    using assms by (simp add: CreateBucketIfNotExists_def split: option.splits node.splits)
  then obtain c where c: "CreateBucketIfNotExists db r B = Inr c" ..
  obtain b1 n1 o1 where p: "putPairs db ps c 0 [] = (b1, n1, o1)"
    by (cases "putPairs db ps c 0 []")
  obtain b2 n2 o2 where q: "putSubs db ss b1 n1 o1 = (b2, n2, o2)"
    by (cases "putSubs db ss b1 n1 o1")
  have "writeBucket db B ps ss r = (r(B \<mapsto> Sub b2), n2, o2, None)"
    using c p q by (simp add: writeBucket_def)
  then show ?thesis by blast
qed

lemma writeBucket_refused:
  assumes "nameCheck db B \<noteq> None \<or> (\<exists>v. r B = Some (Leaf v))"
  shows "\<exists>e. writeBucket db B ps ss r = (r, 0, [], Some e)"
proof -
  have "\<exists>e. CreateBucketIfNotExists db r B = Inl e"
    using assms by (auto simp: CreateBucketIfNotExists_def split: option.splits node.splits)
  then obtain e where "CreateBucketIfNotExists db r B = Inl e" ..
  then show ?thesis by (simp add: writeBucket_def)
qed

lemma recoverBucket_ok_iff:
  assumes "\<forall>v. root d n \<noteq> Some (Leaf v)"
  shows "bucket_ok (recoverBucket s d n) \<longleftrightarrow> \<not> readPanics s n \<and> \<not> writeFails d n"
proof (cases "snd (readBucket s n)")
  case (Inl r)
  then show ?thesis by (simp add: recoverBucket_panic readPanics_iff)
next
  case (Inr x)
  obtain pairs subs err where x: "x = (pairs, subs, err)" by (cases x)
  have np: "\<not> readPanics s n" using Inr by (simp add: readPanics_iff)
  obtain dst' k said' werr where
    u: "Update d (txFault d n) (writeBucket d n pairs subs) = (dst', k, said', werr)"
    by (cases "Update d (txFault d n) (writeBucket d n pairs subs)")
  have ok: "bucket_ok (recoverBucket s d n) = (werr = None)"
    using recoverBucket_write(3) [OF Inr [unfolded x] u] .
  show ?thesis
  proof (cases "nameCheck d n")
    case None
    obtain b m out where "writeBucket d n pairs subs (root d) = ((root d)(n \<mapsto> Sub b), m, out, None)"
      using writeBucket_created [of d n "root d" pairs subs] None assms by blast
    then have "(werr = None) = (txFault d n = None)"
      using u by (auto simp: Update_def split: option.splits tx_fault.splits)
    then show ?thesis using ok np None by (simp add: writeFails_def)
  next
    case (Some e)
    then obtain e' where "writeBucket d n pairs subs (root d) = (root d, 0, [], Some e')"
      using writeBucket_refused [of d n "root d" pairs subs] by auto
    then have "werr \<noteq> None"
      using u by (auto simp: Update_def split: option.splits tx_fault.splits)
    then show ?thesis using ok Some by (simp add: writeFails_def)
  qed
qed

lemma recoverBucket_no_top_leaf:
  assumes "\<forall>m v. root d m \<noteq> Some (Leaf v)"
  shows "\<forall>m v. root (db_after (recoverBucket s d n)) m \<noteq> Some (Leaf v)"
proof (intro allI)
  fix m v
  show "root (db_after (recoverBucket s d n)) m \<noteq> Some (Leaf v)"
  proof (cases "m = n")
    case False
    then show ?thesis using assms by (simp add: recoverBucket_frame)
  next
    case True
    show ?thesis
    proof (cases "snd (readBucket s n)")
      case (Inl r)
      then show ?thesis using assms by (simp add: recoverBucket_dst)
    next
      case (Inr x)
      obtain pairs subs err where x: "x = (pairs, subs, err)" by (cases x)
      have "fst (writeBucket d n pairs subs (root d)) n \<noteq> Some (Leaf v)"
        using assms
        by (auto simp: writeBucket_def Let_def split: sum.splits prod.splits)
      then show ?thesis
        using Update_root [of d "txFault d n" "writeBucket d n pairs subs"] Inr x True assms
        by (auto simp: recoverBucket_dst)
    qed
  qed
qed

lemma writeFails_after: "writeFails (db_after (recoverBucket s d n)) = writeFails d"
  by (intro ext) (simp add: writeFails_def recoverBucket_env)

lemma mainLoop_failed:
  assumes "\<forall>m v. root d m \<noteq> Some (Leaf v)"
  shows "fst (snd (snd (mainLoop s ns d t f out))) =
     f + length (filter (\<lambda>n. readPanics s n \<or> writeFails d n) ns)"
  using assms
proof (induction ns arbitrary: d t f out)
  case Nil
  then show ?case by simp
next
  case (Cons n ns)
  have ok: "bucket_ok (recoverBucket s d n) \<longleftrightarrow> \<not> readPanics s n \<and> \<not> writeFails d n"
    using Cons.prems by (simp add: recoverBucket_ok_iff)
  note ih = Cons.IH [OF recoverBucket_no_top_leaf [OF Cons.prems, of s n]]
  show ?case using ok by (auto simp: Let_def ih writeFails_after)
qed

section \<open>Where a staged entry ends up in the destination\<close>

lemma Put_other: "Put db b k v = Inr b' \<Longrightarrow> k \<noteq> k' \<Longrightarrow> b' k' = b k'"
  by (auto simp: Put_def split: option.splits node.splits)

lemma Put_same: "Put db b k v = Inr b' \<Longrightarrow> b' k = Some (Leaf v)"
  by (auto simp: Put_def split: option.splits node.splits)

lemma Put_accepts:
  "putCheck db k v = None \<Longrightarrow> \<forall>c. b k \<noteq> Some (Sub c) \<Longrightarrow> \<exists>b'. Put db b k v = Inr b'"
  by (simp add: Put_def split: option.splits node.splits)

lemma putPairs_keeps:
  "\<forall>p \<in> set ps. key p \<noteq> k \<Longrightarrow> fst (putPairs db ps b n out) k = b k"
proof (induction ps arbitrary: b n out)
  case Nil
  then show ?case by simp
next
  case (Cons q ps)
  show ?case
  proof (cases "Put db b (key q) (val q)")
    case (Inl e)
    then show ?thesis using Cons by simp
  next
    case (Inr b')
    then have "b' k = b k" using Put_other [OF Inr, of k] Cons.prems by simp
    then show ?thesis using Inr Cons by simp
  qed
qed

lemma putPairs_stable:
  "b k = Some (Leaf v) \<Longrightarrow> \<forall>q \<in> set ps. key q = k \<longrightarrow> val q = v \<Longrightarrow>
     fst (putPairs db ps b n out) k = Some (Leaf v)"
proof (induction ps arbitrary: b n out)
  case Nil
  then show ?case by simp
next
  case (Cons q ps)
  show ?case
  proof (cases "Put db b (key q) (val q)")
    case (Inl e)
    then show ?thesis using Cons by simp
  next
    case (Inr b')
    have "b' k = Some (Leaf v)"
    proof (cases "key q = k")
      case True
      then show ?thesis using Put_same [OF Inr] Cons.prems by simp
    next
      case False
      then show ?thesis using Put_other [OF Inr, of k] Cons.prems by simp
    qed
    then show ?thesis using Inr Cons by simp
  qed
qed

lemma putPairs_writes:
  assumes "p \<in> set ps" and "putCheck db (key p) (val p) = None"
    and "\<forall>q \<in> set ps. key q = key p \<longrightarrow> val q = val p"
    and "\<forall>c. b (key p) \<noteq> Some (Sub c)"
  shows "fst (putPairs db ps b n out) (key p) = Some (Leaf (val p))"
  using assms(1,3,4)
proof (induction ps arbitrary: b n out)
  case Nil
  then show ?case by simp
next
  case (Cons q ps)
  have same: "\<forall>x \<in> set ps. key x = key p \<longrightarrow> val x = val p" using Cons.prems(2) by simp
  show ?case
  proof (cases "key q = key p")
    case True
    have v: "val q = val p" using Cons.prems(2) True by simp
    have "\<exists>b'. Put db b (key p) (val p) = Inr b'"
      using assms(2) Cons.prems(3) by (rule Put_accepts)
    then obtain b' where b': "Put db b (key p) (val p) = Inr b'" ..
    have "b' (key p) = Some (Leaf (val p))" using b' by (rule Put_same)
    then have "fst (putPairs db ps b' (n + 1) out) (key p) = Some (Leaf (val p))"
      using same by (rule putPairs_stable)
    then show ?thesis using b' True v by simp
  next
    case False
    then have mem: "p \<in> set ps" using Cons.prems(1) by auto
    show ?thesis
    proof (cases "Put db b (key q) (val q)")
      case (Inl e)
      have "fst (putPairs db ps b n (out @ [WarnKey e])) (key p) = Some (Leaf (val p))"
        using mem same Cons.prems(3) by (rule Cons.IH)
      then show ?thesis using Inl by simp
    next
      case (Inr b')
      have "b' (key p) = b (key p)" using Inr False by (rule Put_other)
      then have ns: "\<forall>c. b' (key p) \<noteq> Some (Sub c)" using Cons.prems(3) by simp
      have "fst (putPairs db ps b' (n + 1) out) (key p) = Some (Leaf (val p))"
        using mem same ns by (rule Cons.IH)
      then show ?thesis using Inr by simp
    qed
  qed
qed

text \<open>The silent loop on the entries of a sub-bucket changes the bucket like the loop
  with warnings.\<close>

lemma putSubPairs_putPairs:
  "putSubPairs db ps b n = (fst (putPairs db ps b n out), fst (snd (putPairs db ps b n out)))"
  by (induction ps arbitrary: b n out) (simp_all split: sum.splits)

lemma putSubs_keeps:
  "\<forall>sb \<in> set ss. name sb \<noteq> k \<Longrightarrow> fst (putSubs db ss b n out) k = b k"
proof (induction ss arbitrary: b n out)
  case Nil
  then show ?case by simp
next
  case (Cons sb ss)
  then have ne: "name sb \<noteq> k" and rest: "\<forall>x \<in> set ss. name x \<noteq> k" by simp_all
  show ?case
  proof (cases "CreateBucketIfNotExists db b (name sb)")
    case (Inl e)
    then show ?thesis using Cons.IH [OF rest] by simp
  next
    case (Inr child)
    obtain child' m where s: "putSubPairs db (data sb) child n = (child', m)"
      by (cases "putSubPairs db (data sb) child n")
    have "fst (putSubs db ss (b(name sb \<mapsto> Sub child')) m out) k = (b(name sb \<mapsto> Sub child')) k"
      using Cons.IH [OF rest] .
    then show ?thesis using Inr s ne by simp
  qed
qed

lemma putSubs_leaf_stable:
  "b k = Some (Leaf v) \<Longrightarrow> fst (putSubs db ss b n out) k = Some (Leaf v)"
proof (induction ss arbitrary: b n out)
  case Nil
  then show ?case by simp
next
  case (Cons sb ss)
  show ?case
  proof (cases "CreateBucketIfNotExists db b (name sb)")
    case (Inl e)
    then show ?thesis using Cons by simp
  next
    case (Inr child)
    then have "name sb \<noteq> k"
      using Cons.prems by (auto simp: CreateBucketIfNotExists_def split: option.splits)
    then show ?thesis using Inr Cons by (simp split: prod.splits)
  qed
qed

lemma putSubs_writes:
  assumes "sb \<in> set ss" and "distinct (map name ss)"
    and "nameCheck db (name sb) = None" and "b (name sb) = None"
    and "p \<in> set (data sb)" and "putCheck db (key p) (val p) = None"
    and "\<forall>q \<in> set (data sb). key q = key p \<longrightarrow> val q = val p"
  shows "\<exists>c. fst (putSubs db ss b n out) (name sb) = Some (Sub c) \<and>
     c (key p) = Some (Leaf (val p))"
  using assms(1,2,4)
proof (induction ss arbitrary: b n out)
  case Nil
  then show ?case by simp
next
  case (Cons x ss)
  show ?case
  proof (cases "x = sb")
    case True
    have c: "CreateBucketIfNotExists db b (name sb) = Inr Map.empty"
      using assms(3) Cons.prems by (simp add: CreateBucketIfNotExists_def)
    let ?c = "fst (putPairs db (data sb) Map.empty n [])"
    let ?m = "fst (snd (putPairs db (data sb) Map.empty n []))"
    have w: "?c (key p) = Some (Leaf (val p))"
      using assms(5,6,7) by (rule putPairs_writes) simp
    have rest: "\<forall>y \<in> set ss. name y \<noteq> name sb" using Cons.prems True by (force simp: image_iff)
    have "fst (putSubs db ss (b(name sb \<mapsto> Sub ?c)) ?m out) (name sb) = Some (Sub ?c)"
      using putSubs_keeps [OF rest] by simp
    then show ?thesis using c w True putSubPairs_putPairs [of db "data sb" Map.empty n "[]"]
      by simp
  next
    case False
    then have mem: "sb \<in> set ss" and ne: "name x \<noteq> name sb" and d: "distinct (map name ss)"
      using Cons.prems by auto
    show ?thesis
    proof (cases "CreateBucketIfNotExists db b (name x)")
      case (Inl e)
      then show ?thesis using Cons.IH [OF mem d] Cons.prems by simp
    next
      case (Inr child)
      obtain child' m where s: "putSubPairs db (data x) child n = (child', m)"
        by (cases "putSubPairs db (data x) child n")
      have n0: "(b(name x \<mapsto> Sub child')) (name sb) = None" using ne Cons.prems by simp
      have "\<exists>c. fst (putSubs db ss (b(name x \<mapsto> Sub child')) m out) (name sb) = Some (Sub c) \<and>
          c (key p) = Some (Leaf (val p))"
        using mem d n0 by (rule Cons.IH)
      then show ?thesis using Inr s by simp
    qed
  qed
qed

lemma valuesOf_mem: "\<lparr>key = k, val = v\<rparr> \<in> set (valuesOf es) \<longleftrightarrow> (k, Value v) \<in> set es"
  by (induction es rule: valuesOf.induct) auto

lemma valuesOf_mem': "p \<in> set (valuesOf es) \<longleftrightarrow> (key p, Value (val p)) \<in> set es"
  using valuesOf_mem [of "key p" "val p" es] by (cases p) simp

lemma valuesOf_unique:
  assumes "distinct (map fst es)" and "(k, Value v) \<in> set es"
  shows "\<forall>q \<in> set (valuesOf es). key q = k \<longrightarrow> val q = v"
proof (intro ballI impI)
  fix q assume "q \<in> set (valuesOf es)" and "key q = k"
  then have "(k, Value (val q)) \<in> set es" by (simp add: valuesOf_mem')
  with assms have "Value (val q) = Value v" by (metis eq_key_imp_eq_value)
  then show "val q = v" by simp
qed

lemma marker_not_value:
  assumes "distinct (map fst es)" and "(s, Marker l) \<in> set es"
  shows "\<forall>p \<in> set (valuesOf es). key p \<noteq> s"
proof
  fix p assume "p \<in> set (valuesOf es)"
  then have 1: "(key p, Value (val p)) \<in> set es" by (simp add: valuesOf_mem')
  show "key p \<noteq> s"
  proof
    assume "key p = s"
    then have "(s, Value (val p)) \<in> set es" using 1 by simp
    with assms have "Value (val p) = Marker l" by (metis eq_key_imp_eq_value)
    then show False by simp
  qed
qed

lemma subsOf_mem:
  "(s, Marker (Found sub)) \<in> set es \<Longrightarrow>
     \<lparr>name = s, data = valuesOf (entries sub)\<rparr> \<in> set (subsOf es)"
  by (induction es rule: subsOf.induct) auto

lemma subsOf_names: "name ` set (subsOf es) \<subseteq> fst ` set es"
  by (induction es rule: subsOf.induct) auto

lemma subsOf_distinct: "distinct (map fst es) \<Longrightarrow> distinct (map name (subsOf es))"
  using subsOf_names by (induction es rule: subsOf.induct) auto

lemma value_entry_recovered:
  assumes "txBucket src B = Found (Bucket es en)" and "\<not> readPanics src B"
    and "distinct (map fst es)"
    and "txFault dst B = None" and "nameCheck dst B = None" and "root dst B = None"
    and "putCheck dst k v = None" and "(k, Value v) \<in> set es"
  shows "\<exists>b. root (db_after (recoverBucket src dst B)) B = Some (Sub b) \<and> b k = Some (Leaf v)"
proof -
  have "\<exists>err. snd (readBucket src B) = Inr (valuesOf es, subsOf es, err)"
    using assms(1,2)
    by (auto simp: readBucket_staged readPanics_def split: option.splits ending.splits)
  then obtain err where r: "snd (readBucket src B) = Inr (valuesOf es, subsOf es, err)" ..
  have c: "CreateBucketIfNotExists dst (root dst) B = Inr Map.empty"
    using assms(5,6) by (simp add: CreateBucketIfNotExists_def)
  obtain b1 n1 o1 where p: "putPairs dst (valuesOf es) Map.empty 0 [] = (b1, n1, o1)"
    by (cases "putPairs dst (valuesOf es) Map.empty 0 []")
  obtain b2 n2 o2 where q: "putSubs dst (subsOf es) b1 n1 o1 = (b2, n2, o2)"
    by (cases "putSubs dst (subsOf es) b1 n1 o1")
  let ?p = "\<lparr>key = k, val = v\<rparr>"
  have "fst (putPairs dst (valuesOf es) Map.empty 0 []) (key ?p) = Some (Leaf (val ?p))"
  proof (rule putPairs_writes)
    show "?p \<in> set (valuesOf es)" using assms(8) by (simp add: valuesOf_mem)
    show "putCheck dst (key ?p) (val ?p) = None" using assms(7) by simp
    show "\<forall>q \<in> set (valuesOf es). key q = key ?p \<longrightarrow> val q = val ?p"
      using valuesOf_unique [OF assms(3,8)] by simp
    show "\<forall>c. Map.empty (key ?p) \<noteq> Some (Sub c)" by simp
  qed
  then have "b1 k = Some (Leaf v)" using p by simp
  then have "fst (putSubs dst (subsOf es) b1 n1 o1) k = Some (Leaf v)"
    by (rule putSubs_leaf_stable)
  then have b2: "b2 k = Some (Leaf v)" using q by simp
  have w: "writeBucket dst B (valuesOf es) (subsOf es) (root dst) =
      ((root dst)(B \<mapsto> Sub b2), n2, o2, None)"
    using c p q by (simp add: writeBucket_def)
  have u: "Update dst (txFault dst B) (writeBucket dst B (valuesOf es) (subsOf es)) =
      (dst\<lparr>root := (root dst)(B \<mapsto> Sub b2)\<rparr>, n2, o2, None)"
    using Update_commits [of "writeBucket dst B (valuesOf es) (subsOf es)" dst] w assms(4) by simp
  have "root (db_after (recoverBucket src dst B)) B = Some (Sub b2)"
    using recoverBucket_write(1) [OF r u] by simp
  then show ?thesis using b2 by blast
qed

lemma sub_value_entry_recovered:
  assumes "txBucket src B = Found (Bucket es en)" and "\<not> readPanics src B"
    and "distinct (map fst es)"
    and "txFault dst B = None" and "nameCheck dst B = None" and "root dst B = None"
    and "putCheck dst k v = None"
    and "(s, Marker (Found (Bucket ses sen))) \<in> set es" and "(k, Value v) \<in> set ses"
    and "distinct (map fst ses)" and "nameCheck dst s = None"
  shows "\<exists>b c. root (db_after (recoverBucket src dst B)) B = Some (Sub b) \<and>
     b s = Some (Sub c) \<and> c k = Some (Leaf v)"
proof -
  have "\<exists>err. snd (readBucket src B) = Inr (valuesOf es, subsOf es, err)"
    using assms(1,2)
    by (auto simp: readBucket_staged readPanics_def split: option.splits ending.splits)
  then obtain err where r: "snd (readBucket src B) = Inr (valuesOf es, subsOf es, err)" ..
  have c: "CreateBucketIfNotExists dst (root dst) B = Inr Map.empty"
    using assms(5,6) by (simp add: CreateBucketIfNotExists_def)
  obtain b1 n1 o1 where p: "putPairs dst (valuesOf es) Map.empty 0 [] = (b1, n1, o1)"
    by (cases "putPairs dst (valuesOf es) Map.empty 0 []")
  obtain b2 n2 o2 where q: "putSubs dst (subsOf es) b1 n1 o1 = (b2, n2, o2)"
    by (cases "putSubs dst (subsOf es) b1 n1 o1")
  let ?sb = "\<lparr>name = s, data = valuesOf ses\<rparr>"
  let ?p = "\<lparr>key = k, val = v\<rparr>"
  have "fst (putPairs dst (valuesOf es) Map.empty 0 []) s = Map.empty s"
    using marker_not_value [OF assms(3,8)] by (rule putPairs_keeps)
  then have b1: "b1 (name ?sb) = None" using p by simp
  have "\<exists>c. fst (putSubs dst (subsOf es) b1 n1 o1) (name ?sb) = Some (Sub c) \<and>
      c (key ?p) = Some (Leaf (val ?p))"
  proof (rule putSubs_writes)
    show "?sb \<in> set (subsOf es)" using subsOf_mem [OF assms(8)] by simp
    show "distinct (map name (subsOf es))" using assms(3) by (rule subsOf_distinct)
    show "nameCheck dst (name ?sb) = None" using assms(11) by simp
    show "b1 (name ?sb) = None" by (rule b1)
    show "?p \<in> set (data ?sb)" using assms(9) by (simp add: valuesOf_mem)
    show "putCheck dst (key ?p) (val ?p) = None" using assms(7) by simp
    show "\<forall>q \<in> set (data ?sb). key q = key ?p \<longrightarrow> val q = val ?p"
      using valuesOf_unique [OF assms(10,9)] by simp
  qed
  then obtain c' where b2: "b2 s = Some (Sub c')" "c' k = Some (Leaf v)" using q by auto
  have w: "writeBucket dst B (valuesOf es) (subsOf es) (root dst) =
      ((root dst)(B \<mapsto> Sub b2), n2, o2, None)"
    using c p q by (simp add: writeBucket_def)
  have u: "Update dst (txFault dst B) (writeBucket dst B (valuesOf es) (subsOf es)) =
      (dst\<lparr>root := (root dst)(B \<mapsto> Sub b2)\<rparr>, n2, o2, None)"
    using Update_commits [of "writeBucket dst B (valuesOf es) (subsOf es)" dst] w assms(4) by simp
  have "root (db_after (recoverBucket src dst B)) B = Some (Sub b2)"
    using recoverBucket_write(1) [OF r u] by simp
  then show ?thesis using b2 by blast
qed

section \<open>The counter and the entries of the destination\<close>

lemma leafKeys_empty: "leafKeys Map.empty = {}"
  by (simp add: leafKeys_def)

lemma subKeys_empty: "subKeys Map.empty = {}"
  by (simp add: subKeys_def)

lemma leafKeys_upd_Leaf: "leafKeys (b(k \<mapsto> Leaf v)) = insert k (leafKeys b)"
  by (auto simp: leafKeys_def)

lemma subKeys_upd_Leaf: "subKeys (b(k \<mapsto> Leaf v)) = subKeys b - {k}"
  by (auto simp: subKeys_def)

lemma leafKeys_upd_Sub: "leafKeys (b(k \<mapsto> Sub c)) = leafKeys b - {k}"
  by (auto simp: leafKeys_def)

lemma subKeys_upd_Sub: "subKeys (b(k \<mapsto> Sub c)) = insert k (subKeys b)"
  by (auto simp: subKeys_def)

lemma subAt_upd_Sub: "subAt (b(k \<mapsto> Sub c)) k' = (if k' = k then c else subAt b k')"
  by (simp add: subAt_def)

lemma leafKeys_dom: "leafKeys b \<subseteq> dom b"
  by (auto simp: leafKeys_def)

lemma subKeys_dom: "subKeys b \<subseteq> dom b"
  by (auto simp: subKeys_def)

lemma finite_leafKeys: "finite (dom b) \<Longrightarrow> finite (leafKeys b)"
  using leafKeys_dom by (rule finite_subset)

lemma finite_subKeys: "finite (dom b) \<Longrightarrow> finite (subKeys b)"
  using subKeys_dom by (rule finite_subset)

lemma bucketEntries_empty: "bucketEntries Map.empty = 0"
  by (simp add: bucketEntries_def leafKeys_empty subKeys_empty)

lemma storeEntries_empty: "storeEntries Map.empty = 0"
  by (simp add: storeEntries_def subKeys_empty)

lemma bucketEntries_upd_Sub:
  assumes "k \<notin> dom b" and "finite (dom b)"
  shows "bucketEntries (b(k \<mapsto> Sub c)) = bucketEntries b + card (leafKeys c)"
proof -
  have l: "leafKeys (b(k \<mapsto> Sub c)) = leafKeys b"
    using assms(1) leafKeys_dom [of b] by (auto simp: leafKeys_upd_Sub)
  have k: "k \<notin> subKeys b" using assms(1) subKeys_dom [of b] by auto
  have f: "finite (subKeys b)" using assms(2) by (rule finite_subKeys)
  have "(\<Sum>s \<in> subKeys b. card (leafKeys (subAt (b(k \<mapsto> Sub c)) s))) =
      (\<Sum>s \<in> subKeys b. card (leafKeys (subAt b s)))"
    using k by (intro sum.cong) (auto simp: subAt_upd_Sub)
  then show ?thesis using l k f
    by (simp add: bucketEntries_def subKeys_upd_Sub subAt_upd_Sub)
qed

lemma storeEntries_upd_Sub:
  assumes "k \<notin> dom r" and "finite (dom r)"
  shows "storeEntries (r(k \<mapsto> Sub c)) = storeEntries r + bucketEntries c"
proof -
  have k: "k \<notin> subKeys r" using assms(1) subKeys_dom [of r] by auto
  have f: "finite (subKeys r)" using assms(2) by (rule finite_subKeys)
  have "(\<Sum>s \<in> subKeys r. bucketEntries (subAt (r(k \<mapsto> Sub c)) s)) =
      (\<Sum>s \<in> subKeys r. bucketEntries (subAt r s))"
    using k by (intro sum.cong) (auto simp: subAt_upd_Sub)
  then show ?thesis using k f
    by (simp add: storeEntries_def subKeys_upd_Sub subAt_upd_Sub)
qed

lemma Put_result: "Put db b k v = Inr b' \<Longrightarrow> b' = b(k \<mapsto> Leaf v)"
  by (auto simp: Put_def split: option.splits node.splits)

lemma putPairs_dom: "dom (fst (putPairs db ps b n out)) \<subseteq> dom b \<union> key ` set ps"
proof (induction ps arbitrary: b n out)
  case Nil
  then show ?case by simp
next
  case (Cons q ps)
  show ?case
  proof (cases "Put db b (key q) (val q)")
    case (Inl e)
    then show ?thesis using Cons.IH [of b n "out @ [WarnKey e]"] by auto
  next
    case (Inr b')
    then have "dom b' = insert (key q) (dom b)" using Put_result [OF Inr] by simp
    then show ?thesis using Cons.IH [of b' "n + 1" out] Inr by auto
  qed
qed

lemma putPairs_sub_stable:
  "b k = Some (Sub c) \<Longrightarrow> fst (putPairs db ps b n out) k = Some (Sub c)"
proof (induction ps arbitrary: b n out)
  case Nil
  then show ?case by simp
next
  case (Cons q ps)
  show ?case
  proof (cases "Put db b (key q) (val q)")
    case (Inl e)
    then show ?thesis using Cons by simp
  next
    case (Inr b')
    then have "key q \<noteq> k" using Cons.prems by (auto simp: Put_def split: option.splits)
    then have "b' k = Some (Sub c)" using Put_other [OF Inr, of k] Cons.prems by simp
    then show ?thesis using Cons.IH [of b'] Inr by simp
  qed
qed

lemma putPairs_finite: "finite (dom b) \<Longrightarrow> finite (dom (fst (putPairs db ps b n out)))"
  using putPairs_dom [of db ps b n out] by (rule finite_subset) simp

lemma putPairs_count:
  assumes "distinct (map key ps)" and "key ` set ps \<inter> dom b = {}" and "finite (dom b)"
  shows "fst (snd (putPairs db ps b n out)) + card (leafKeys b) =
     n + card (leafKeys (fst (putPairs db ps b n out)))"
  using assms
proof (induction ps arbitrary: b n out)
  case Nil
  then show ?case by simp
next
  case (Cons q ps)
  have d: "distinct (map key ps)" and nq: "key q \<notin> key ` set ps" and qb: "key q \<notin> dom b"
    and pb: "key ` set ps \<inter> dom b = {}"
    using Cons.prems by auto
  show ?case
  proof (cases "Put db b (key q) (val q)")
    case (Inl e)
    have "fst (snd (putPairs db ps b n (out @ [WarnKey e]))) + card (leafKeys b) =
        n + card (leafKeys (fst (putPairs db ps b n (out @ [WarnKey e]))))"
      using d pb Cons.prems(3) by (rule Cons.IH)
    then show ?thesis using Inl by simp
  next
    case (Inr b')
    have b': "b' = b(key q \<mapsto> Leaf (val q))" using Inr by (rule Put_result)
    have dom': "dom b' = insert (key q) (dom b)" using b' by simp
    have pb': "key ` set ps \<inter> dom b' = {}" using pb nq dom' by auto
    have fin': "finite (dom b')" using dom' Cons.prems(3) by simp
    have "key q \<notin> leafKeys b" using qb leafKeys_dom [of b] by auto
    then have c: "card (leafKeys b') = card (leafKeys b) + 1"
      using b' finite_leafKeys [OF Cons.prems(3)] by (simp add: leafKeys_upd_Leaf)
    have "fst (snd (putPairs db ps b' (n + 1) out)) + card (leafKeys b') =
        (n + 1) + card (leafKeys (fst (putPairs db ps b' (n + 1) out)))"
      using d pb' fin' by (rule Cons.IH)
    then show ?thesis using Inr c by simp
  qed
qed

lemma putPairs_subKeys:
  "subKeys (fst (putPairs db ps b n out)) \<subseteq> subKeys b"
proof (induction ps arbitrary: b n out)
  case Nil
  then show ?case by simp
next
  case (Cons q ps)
  show ?case
  proof (cases "Put db b (key q) (val q)")
    case (Inl e)
    then show ?thesis using Cons.IH [of b n "out @ [WarnKey e]"] by simp
  next
    case (Inr b')
    have "b' = b(key q \<mapsto> Leaf (val q))" using Inr by (rule Put_result)
    then have "subKeys b' \<subseteq> subKeys b" by (auto simp: subKeys_upd_Leaf)
    then show ?thesis using Cons.IH [of b' "n + 1" out] Inr by auto
  qed
qed

lemma putSubs_dom: "dom (fst (putSubs db ss b n out)) \<subseteq> dom b \<union> name ` set ss"
proof (induction ss arbitrary: b n out)
  case Nil
  then show ?case by simp
next
  case (Cons sb ss)
  show ?case
  proof (cases "CreateBucketIfNotExists db b (name sb)")
    case (Inl e)
    then show ?thesis using Cons.IH [of b n "out @ [WarnSubBucket (name sb) e]"] by auto
  next
    case (Inr child)
    obtain child' m where s: "putSubPairs db (data sb) child n = (child', m)"
      by (cases "putSubPairs db (data sb) child n")
    have "dom (fst (putSubs db ss (b(name sb \<mapsto> Sub child')) m out)) \<subseteq>
        dom (b(name sb \<mapsto> Sub child')) \<union> name ` set ss"
      by (rule Cons.IH)
    then have "dom (fst (putSubs db ss (b(name sb \<mapsto> Sub child')) m out)) \<subseteq>
        dom b \<union> name ` set (sb # ss)"
      by (simp add: subset_iff)
    then show ?thesis using Inr s by simp
  qed
qed

lemma putSubs_count:
  assumes "distinct (map name ss)" and "name ` set ss \<inter> dom b = {}" and "finite (dom b)"
    and "\<forall>sb \<in> set ss. distinct (map key (data sb))"
  shows "fst (snd (putSubs db ss b n out)) + bucketEntries b =
     n + bucketEntries (fst (putSubs db ss b n out))"
  using assms
proof (induction ss arbitrary: b n out)
  case Nil
  then show ?case by simp
next
  case (Cons sb ss)
  have d: "distinct (map name ss)" and ns: "name sb \<notin> name ` set ss"
    and nb: "name sb \<notin> dom b" and sb: "name ` set ss \<inter> dom b = {}"
    and dk: "distinct (map key (data sb))"
    and dks: "\<forall>x \<in> set ss. distinct (map key (data x))"
    using Cons.prems by auto
  show ?case
  proof (cases "CreateBucketIfNotExists db b (name sb)")
    case (Inl e)
    have "fst (snd (putSubs db ss b n (out @ [WarnSubBucket (name sb) e]))) + bucketEntries b =
        n + bucketEntries (fst (putSubs db ss b n (out @ [WarnSubBucket (name sb) e])))"
      using d sb Cons.prems(3) dks by (rule Cons.IH)
    then show ?thesis using Inl by simp
  next
    case (Inr child)
    have "b (name sb) = None" using nb by (simp add: domIff)
    then have child: "child = Map.empty"
      using Inr by (simp add: CreateBucketIfNotExists_def split: option.splits)
    let ?c = "fst (putPairs db (data sb) Map.empty n [])"
    let ?m = "fst (snd (putPairs db (data sb) Map.empty n []))"
    have s: "putSubPairs db (data sb) child n = (?c, ?m)"
      using child putSubPairs_putPairs [of db "data sb" Map.empty n "[]"] by simp
    have "?m + card (leafKeys Map.empty) = n + card (leafKeys ?c)"
      using dk by (rule putPairs_count) simp_all
    then have m: "?m = n + card (leafKeys ?c)" by (simp add: leafKeys_empty)
    let ?b = "b(name sb \<mapsto> Sub ?c)"
    have e: "bucketEntries ?b = bucketEntries b + card (leafKeys ?c)"
      using nb Cons.prems(3) by (rule bucketEntries_upd_Sub)
    have sb': "name ` set ss \<inter> dom ?b = {}" using sb ns by auto
    have fin': "finite (dom ?b)" using Cons.prems(3) by simp
    have "fst (snd (putSubs db ss ?b ?m out)) + bucketEntries ?b =
        ?m + bucketEntries (fst (putSubs db ss ?b ?m out))"
      using d sb' fin' dks by (rule Cons.IH)
    then show ?thesis using Inr s m e by simp
  qed
qed

lemma writeBucket_count:
  assumes "r B = None" and "nameCheck db B = None"
    and "distinct (map key ps)" and "distinct (map name ss)"
    and "key ` set ps \<inter> name ` set ss = {}"
    and "\<forall>sb \<in> set ss. distinct (map key (data sb))"
  shows "\<exists>b out. writeBucket db B ps ss r = (r(B \<mapsto> Sub b), bucketEntries b, out, None)"
proof -
  have c: "CreateBucketIfNotExists db r B = Inr Map.empty"
    using assms(1,2) by (simp add: CreateBucketIfNotExists_def)
  obtain b1 n1 o1 where p: "putPairs db ps Map.empty 0 [] = (b1, n1, o1)"
    by (cases "putPairs db ps Map.empty 0 []")
  obtain b2 n2 o2 where q: "putSubs db ss b1 n1 o1 = (b2, n2, o2)"
    by (cases "putSubs db ss b1 n1 o1")
  have "fst (snd (putPairs db ps Map.empty 0 [])) + card (leafKeys Map.empty) =
      0 + card (leafKeys (fst (putPairs db ps Map.empty 0 [])))"
    using assms(3) by (rule putPairs_count) simp_all
  then have n1: "n1 = card (leafKeys b1)" using p by (simp add: leafKeys_empty)
  have "subKeys b1 \<subseteq> subKeys Map.empty"
    using putPairs_subKeys [of db ps Map.empty 0 "[]"] p by simp
  then have "subKeys b1 = {}" by (simp add: subKeys_empty)
  then have e1: "bucketEntries b1 = n1" using n1 by (simp add: bucketEntries_def)
  have dom1: "dom b1 \<subseteq> key ` set ps" using putPairs_dom [of db ps Map.empty 0 "[]"] p by simp
  then have fin1: "finite (dom b1)" by (rule finite_subset) simp
  have dis: "name ` set ss \<inter> dom b1 = {}" using dom1 assms(5) by auto
  have "fst (snd (putSubs db ss b1 n1 o1)) + bucketEntries b1 =
      n1 + bucketEntries (fst (putSubs db ss b1 n1 o1))"
    using assms(4) dis fin1 assms(6) by (rule putSubs_count)
  then have "n2 = bucketEntries b2" using q e1 by simp
  then have "writeBucket db B ps ss r = (r(B \<mapsto> Sub b2), bucketEntries b2, o2, None)"
    using c p q by (simp add: writeBucket_def)
  then show ?thesis by blast
qed

lemma valuesOf_keys: "key ` set (valuesOf es) \<subseteq> fst ` set es"
  by (induction es rule: valuesOf.induct) auto

lemma valuesOf_distinct: "distinct (map fst es) \<Longrightarrow> distinct (map key (valuesOf es))"
  using valuesOf_keys by (induction es rule: valuesOf.induct) auto

lemma subsOf_origin:
  "sb \<in> set (subsOf es) \<Longrightarrow> \<exists>sub. (name sb, Marker (Found sub)) \<in> set es"
  by (induction es rule: subsOf.induct) auto

lemma values_subs_disjoint:
  assumes "distinct (map fst es)"
  shows "key ` set (valuesOf es) \<inter> name ` set (subsOf es) = {}"
proof -
  have "key p \<noteq> name sb" if p: "p \<in> set (valuesOf es)" and sb: "sb \<in> set (subsOf es)" for p sb
  proof -
    obtain sub where "(name sb, Marker (Found sub)) \<in> set es"
      using subsOf_origin [OF sb] ..
    then have "\<forall>q \<in> set (valuesOf es). key q \<noteq> name sb"
      using assms by (rule marker_not_value [rotated])
    then show ?thesis using p by simp
  qed
  then show ?thesis by auto
qed

lemma subsOf_data_distinct:
  "subsDistinct es \<Longrightarrow> \<forall>sb \<in> set (subsOf es). distinct (map key (data sb))"
  by (induction es rule: subsOf.induct) (auto simp: valuesOf_distinct)

lemma readBucket_clean:
  assumes "case txBucket s B of
      Found b \<Rightarrow> distinct (map fst (entries b)) \<and> subsDistinct (entries b) | _ \<Rightarrow> True"
    and "snd (readBucket s B) = Inr (ps, ss, err)"
  shows "distinct (map key ps) \<and> distinct (map name ss) \<and>
     key ` set ps \<inter> name ` set ss = {} \<and> (\<forall>sb \<in> set ss. distinct (map key (data sb)))"
proof (cases "txBucket s B")
  case (Found b)
  then have "ps = valuesOf (entries b)" "ss = subsOf (entries b)"
    using assms(2) by (simp_all add: readBucket_staged split: option.splits ending.splits)
  moreover have "distinct (map fst (entries b))" "subsDistinct (entries b)"
    using assms(1) Found by simp_all
  ultimately show ?thesis
    using valuesOf_distinct subsOf_distinct values_subs_disjoint subsOf_data_distinct by blast
next
  case NotFound
  then show ?thesis using assms(2) by (simp add: readBucket_staged)
next
  case (LookupPanic r)
  then show ?thesis using assms(2) by (simp add: readBucket_staged)
qed

lemma Update_begin_fails: "Update db (Some (BeginFails e)) fn = (db, 0, [], Some e)"
  by (simp add: Update_def)

lemma Update_refused:
  "fn (root db) = (r', n, out, Some e) \<Longrightarrow> \<exists>e'. Update db f fn = (db, (if (\<exists>x. f = Some (BeginFails x)) then 0 else n), (if (\<exists>x. f = Some (BeginFails x)) then [] else out), Some e')"
  by (auto simp: Update_def split: option.splits tx_fault.splits)

lemma recoverBucket_count:
  assumes "root d B = None" and "finite (dom (root d))"
    and "\<forall>e. txFault d B \<noteq> Some (CommitFails e)"
    and "case txBucket s B of
      Found b \<Rightarrow> distinct (map fst (entries b)) \<and> subsDistinct (entries b) | _ \<Rightarrow> True"
  shows "storeEntries (root (db_after (recoverBucket s d B))) =
     storeEntries (root d) + keys_recovered (recoverBucket s d B)"
proof (cases "snd (readBucket s B)")
  case (Inl r)
  then show ?thesis by (simp add: recoverBucket_panic)
next
  case (Inr x)
  obtain ps ss err where x: "x = (ps, ss, err)" by (cases x)
  have rd: "snd (readBucket s B) = Inr (ps, ss, err)" using Inr x by simp
  note cl = readBucket_clean [OF assms(4) rd]
  show ?thesis
  proof (cases "txFault d B")
    case None
    show ?thesis
    proof (cases "nameCheck d B")
      case None': None
      obtain b out where
        w: "writeBucket d B ps ss (root d) = ((root d)(B \<mapsto> Sub b), bucketEntries b, out, None)"
        using writeBucket_count [of "root d" B d ps ss] assms(1) None' cl by blast
      have u: "Update d (txFault d B) (writeBucket d B ps ss) =
          (d\<lparr>root := (root d)(B \<mapsto> Sub b)\<rparr>, bucketEntries b, out, None)"
        using Update_commits [of "writeBucket d B ps ss" d] w None by simp
      have "B \<notin> dom (root d)" using assms(1) by (simp add: domIff)
      then have "storeEntries ((root d)(B \<mapsto> Sub b)) = storeEntries (root d) + bucketEntries b"
        using assms(2) by (rule storeEntries_upd_Sub)
      then show ?thesis using recoverBucket_write(1,2) [OF rd u] by simp
    next
      case (Some e)
      then obtain e' where "writeBucket d B ps ss (root d) = (root d, 0, [], Some e')"
        using writeBucket_refused [of d B "root d" ps ss] by auto
      then have u: "Update d (txFault d B) (writeBucket d B ps ss) = (d, 0, [], Some e')"
        using None by (simp add: Update_def)
      show ?thesis using recoverBucket_write(1,2) [OF rd u] by simp
    qed
  next
    case (Some f)
    then obtain e where "f = BeginFails e" using assms(3) by (cases f) auto
    then have u: "Update d (txFault d B) (writeBucket d B ps ss) = (d, 0, [], Some e)"
      using Some by (simp add: Update_begin_fails)
    show ?thesis using recoverBucket_write(1,2) [OF rd u] by simp
  qed
qed

lemma recoverBucket_dom:
  "dom (root (db_after (recoverBucket s d B))) \<subseteq> insert B (dom (root d))"
proof
  fix n assume n: "n \<in> dom (root (db_after (recoverBucket s d B)))"
  show "n \<in> insert B (dom (root d))"
  proof (cases "n = B")
    case False
    then have "root (db_after (recoverBucket s d B)) n = root d n" by (rule recoverBucket_frame)
    then show ?thesis using n by (simp add: domIff)
  qed simp
qed

lemma mainLoop_count:
  assumes "distinct ns" and "set ns \<inter> dom (root d) = {}" and "finite (dom (root d))"
    and "\<forall>n e. txFault d n \<noteq> Some (CommitFails e)"
    and "\<forall>n \<in> set ns. case txBucket s n of
      Found b \<Rightarrow> distinct (map fst (entries b)) \<and> subsDistinct (entries b) | _ \<Rightarrow> True"
  shows "fst (snd (mainLoop s ns d t f out)) + storeEntries (root d) =
     t + storeEntries (root (fst (mainLoop s ns d t f out)))"
  using assms
proof (induction ns arbitrary: d t f out)
  case Nil
  then show ?case by simp
next
  case (Cons n ns)
  let ?r = "recoverBucket s d n"
  have n0: "root d n = None" using Cons.prems(2) by (auto simp: domIff)
  have cn: "case txBucket s n of
      Found b \<Rightarrow> distinct (map fst (entries b)) \<and> subsDistinct (entries b) | _ \<Rightarrow> True"
    using Cons.prems(5) by simp
  have nc: "\<forall>e. txFault d n \<noteq> Some (CommitFails e)" using Cons.prems(4) by simp
  have c: "storeEntries (root (db_after ?r)) = storeEntries (root d) + keys_recovered ?r"
    using n0 Cons.prems(3) nc cn by (rule recoverBucket_count)
  have d': "distinct ns" and nn: "n \<notin> set ns" using Cons.prems(1) by simp_all
  have dis: "set ns \<inter> dom (root (db_after ?r)) = {}"
    using recoverBucket_dom [of s d n] Cons.prems(2) nn by auto
  have fin: "finite (dom (root (db_after ?r)))"
    using recoverBucket_dom [of s d n] Cons.prems(3) by (meson finite_insert finite_subset)
  have tf: "\<forall>m e. txFault (db_after ?r) m \<noteq> Some (CommitFails e)"
    using Cons.prems(4) by (simp add: recoverBucket_env)
  have rest: "\<forall>m \<in> set ns. case txBucket s m of
      Found b \<Rightarrow> distinct (map fst (entries b)) \<and> subsDistinct (entries b) | _ \<Rightarrow> True"
    using Cons.prems(5) by simp
  have "fst (snd (mainLoop s ns (db_after ?r) (t + keys_recovered ?r)
          (if bucket_ok ?r then f else f + 1) (out @ text_printed ?r))) +
        storeEntries (root (db_after ?r)) =
      (t + keys_recovered ?r) +
        storeEntries (root (fst (mainLoop s ns (db_after ?r) (t + keys_recovered ?r)
          (if bucket_ok ?r then f else f + 1) (out @ text_printed ?r))))"
    using d' dis fin tf rest by (rule Cons.IH)
  then show ?case using c by (simp add: Let_def)
qed

lemma putPairs_le: "fst (snd (putPairs db ps b n out)) \<le> n + length ps"
proof (induction ps arbitrary: b n out)
  case Nil
  then show ?case by simp
next
  case (Cons q ps)
  show ?case
  proof (cases "Put db b (key q) (val q)")
    case (Inl e)
    then show ?thesis using Cons.IH [of b n "out @ [WarnKey e]"] by simp
  next
    case (Inr b')
    then show ?thesis using Cons.IH [of b' "n + 1" out] by simp
  qed
qed

lemma putSubs_le:
  "fst (snd (putSubs db ss b n out)) \<le> n + sum_list (map (\<lambda>sb. length (data sb)) ss)"
proof (induction ss arbitrary: b n out)
  case Nil
  then show ?case by simp
next
  case (Cons sb ss)
  show ?case
  proof (cases "CreateBucketIfNotExists db b (name sb)")
    case (Inl e)
    then show ?thesis using Cons.IH [of b n "out @ [WarnSubBucket (name sb) e]"] by simp
  next
    case (Inr child)
    let ?c = "fst (putPairs db (data sb) child n [])"
    let ?m = "fst (snd (putPairs db (data sb) child n []))"
    have s: "putSubPairs db (data sb) child n = (?c, ?m)"
      by (rule putSubPairs_putPairs)
    have m: "?m \<le> n + length (data sb)" by (rule putPairs_le)
    have ih: "fst (snd (putSubs db ss (b(name sb \<mapsto> Sub ?c)) ?m out)) \<le>
        ?m + sum_list (map (\<lambda>sb. length (data sb)) ss)"
      by (rule Cons.IH)
    have "fst (snd (putSubs db (sb # ss) b n out)) =
        fst (snd (putSubs db ss (b(name sb \<mapsto> Sub ?c)) ?m out))"
      using Inr s by simp
    then show ?thesis using ih m by simp
  qed
qed

lemma writeBucket_le:
  "fst (snd (writeBucket db B ps ss r)) \<le>
     length ps + sum_list (map (\<lambda>sb. length (data sb)) ss)"
proof (cases "CreateBucketIfNotExists db r B")
  case (Inl e)
  then show ?thesis by (simp add: writeBucket_def)
next
  case (Inr b)
  obtain b1 n1 o1 where p: "putPairs db ps b 0 [] = (b1, n1, o1)"
    by (cases "putPairs db ps b 0 []")
  obtain b2 n2 o2 where q: "putSubs db ss b1 n1 o1 = (b2, n2, o2)"
    by (cases "putSubs db ss b1 n1 o1")
  have "n1 \<le> length ps" using putPairs_le [of db ps b 0 "[]"] p by simp
  moreover have "n2 \<le> n1 + sum_list (map (\<lambda>sb. length (data sb)) ss)"
    using putSubs_le [of db ss b1 n1 o1] q by simp
  ultimately show ?thesis using Inr p q by (simp add: writeBucket_def)
qed

lemma Update_le: "fst (snd (Update db f fn)) \<le> fst (snd (fn (root db)))"
  by (simp add: Update_def split: option.splits tx_fault.splits prod.splits)

lemma recoverBucket_le: "keys_recovered (recoverBucket s d B) \<le> stagedCount s B"
proof (cases "snd (readBucket s B)")
  case (Inl r)
  then show ?thesis by (simp add: recoverBucket_panic)
next
  case (Inr x)
  obtain ps ss err where x: "x = (ps, ss, err)" by (cases x)
  have rd: "snd (readBucket s B) = Inr (ps, ss, err)" using Inr x by simp
  obtain d' n said' werr where
    u: "Update d (txFault d B) (writeBucket d B ps ss) = (d', n, said', werr)"
    by (cases "Update d (txFault d B) (writeBucket d B ps ss)")
  have "n \<le> fst (snd (writeBucket d B ps ss (root d)))"
    using Update_le [of d "txFault d B" "writeBucket d B ps ss"] u by simp
  also have "\<dots> \<le> length ps + sum_list (map (\<lambda>sb. length (data sb)) ss)"
    by (rule writeBucket_le)
  also have "\<dots> = stagedCount s B"
    using rd by (auto simp: stagedCount_def readBucket_staged
        split: lookup.splits option.splits ending.splits)
  finally show ?thesis using recoverBucket_write(2) [OF rd u] by simp
qed

lemma mainLoop_le:
  "fst (snd (mainLoop s ns d t f out)) \<le> t + sum_list (map (stagedCount s) ns)"
proof (induction ns arbitrary: d t f out)
  case Nil
  then show ?case by simp
next
  case (Cons n ns)
  let ?r = "recoverBucket s d n"
  have "fst (snd (mainLoop s ns (db_after ?r) (t + keys_recovered ?r)
          (if bucket_ok ?r then f else f + 1) (out @ text_printed ?r))) \<le>
      (t + keys_recovered ?r) + sum_list (map (stagedCount s) ns)"
    by (rule Cons.IH)
  then show ?case using recoverBucket_le [of s d n] by (simp add: Let_def)
qed

section \<open>The claims\<close>

text \<open>
  C1. The entries that a top-level bucket yielded before its enumeration panicked are
  to be written to the destination under the bucket's name, and the panic is to stay
  inside the call. The program does the second, not the first: the panic leaves \<^verbatim>\<open>src.View\<close> and is caught by the deferred
  function of \<^verbatim>\<open>recoverBucket\<close>, which returns at once, so the write transaction never
  runs. In the scenario of the specification (\<open>a\<close> holds \<open>k1\<close> and \<open>k2\<close>, \<open>b\<close>
  panics after \<open>k3\<close>) the call for \<open>b\<close> leaves the destination as it was and
  reports 0 keys, the destination has no bucket \<open>b\<close> at the end, and the summary
  counts 2 keys instead of 3. The panic itself is contained: \<open>ok\<close> is false and the
  run goes on to the summary.
\<close>

theorem staged_entries_lost_on_panic:
  "recoverBucket faultyAB freshDst ''b'' =
     \<lparr>db_after = freshDst, keys_recovered = 0, bucket_ok = False,
      text_printed = [Recovering ''b'', PanicBucket ''b'' ''page 202'' 0]\<rparr> \<and>
   summary (main salvageArgs (Inr faultyAB) (Inr freshDst)) = Some (2, 1, 2) \<and>
   (\<exists>d. store (main salvageArgs (Inr faultyAB) (Inr freshDst)) = Some d \<and>
      root d ''b'' = None \<and>
      root d ''a'' = Some (Sub [''k1'' \<mapsto> Leaf ''v1'', ''k2'' \<mapsto> Leaf ''v2'']))"
  by (simp add: main_def salvageArgs_def faultyAB_def recoverBucket_def readBucket_def
      freshDst_def recoverSubBucket_def writeBucket_def Update_def
      CreateBucketIfNotExists_def Put_def Let_def)

text \<open>
  C2, as the program has it. The exit status is 0 exactly when the command line has
  two arguments, both stores open, the listing of the bucket names completes and, for
  every listed bucket, no panic leaves its read transaction and its write transaction
  returns no error. A fault caught inside the enumeration of a sub-bucket and an
  ordinary read error (bucket not found) are not among these conditions. The
  destination is one whose root holds buckets only, as every bbolt store does.
\<close>

theorem exit_status_zero_iff:
  assumes "\<And>d n v. dstOpen = Inr d \<Longrightarrow> root d n \<noteq> Some (Leaf v)"
  shows "exit_status (main args srcOpen dstOpen) = 0 \<longleftrightarrow>
     length args = 3 \<and>
     (\<exists>s d. srcOpen = Inr s \<and> dstOpen = Inr d \<and> names_end s = Completed \<and>
        (\<forall>n \<in> set (names s). \<not> readPanics s n \<and> \<not> writeFails d n))"
proof (cases "length args = 3 \<and> (\<exists>s d. srcOpen = Inr s \<and> dstOpen = Inr d \<and> names_end s = Completed)")
  case False
  then show ?thesis
    by (auto simp: main_def split: sum.splits ending.splits)
next
  case True
  then obtain s d where sd: "length args = 3" "srcOpen = Inr s" "dstOpen = Inr d"
    "names_end s = Completed" by blast
  let ?l = "mainLoop s (names s) d 0 0 [FoundBuckets (length (names s))]"
  have "exit_status (main args srcOpen dstOpen) = (if fst (snd (snd ?l)) > 0 then 1 else 0)"
    using sd by (simp add: main_def Let_def split: prod.splits)
  moreover have "fst (snd (snd ?l)) =
      length (filter (\<lambda>n. readPanics s n \<or> writeFails d n) (names s))"
    using mainLoop_failed [of d s "names s" 0 0] assms [OF sd(3)] by simp
  ultimately show ?thesis using sd by (auto simp: filter_empty_conv)
qed

theorem exit_status_zero_iff_witness:
  "exit_status (main salvageArgs (Inr healthyAB) (Inr freshDst)) = 0 \<and>
   exit_status (main salvageArgs (Inr faultyAB) (Inr freshDst)) \<noteq> 0"
proof -
  have r: "\<And>d n v. (Inr freshDst :: string + dst_db) = Inr d \<Longrightarrow> root d n \<noteq> Some (Leaf v)"
    by (auto simp: freshDst_def)
  have "exit_status (main salvageArgs (Inr healthyAB) (Inr freshDst)) = 0"
    using exit_status_zero_iff [of "Inr freshDst" salvageArgs "Inr healthyAB", OF r]
    by (simp add: salvageArgs_def healthyAB_def freshDst_def readPanics_def writeFails_def)
  moreover have "exit_status (main salvageArgs (Inr faultyAB) (Inr freshDst)) \<noteq> 0"
    using exit_status_zero_iff [of "Inr freshDst" salvageArgs "Inr faultyAB", OF r]
    by (simp add: salvageArgs_def faultyAB_def freshDst_def readPanics_def writeFails_def)
  ultimately show ?thesis by simp
qed

text \<open>
  C2 as stated fails. In the store \<open>settings\<close> the enumeration of a sub-bucket panics
  and a listed bucket cannot be opened; both faults are printed, and the exit status
  is 0.
\<close>

theorem exit_status_ignores_sub_bucket_fault:
  "exit_status (main salvageArgs (Inr settings) (Inr freshDst)) = 0 \<and>
   PanicSubBucket ''settings'' ''page 202'' 1
     \<in> set (printed (main salvageArgs (Inr settings) (Inr freshDst))) \<and>
   ReadError ''ghost'' ''bucket not found''
     \<in> set (printed (main salvageArgs (Inr settings) (Inr freshDst)))"
  by (simp add: main_def salvageArgs_def settings_def recoverBucket_def readBucket_def
      freshDst_def recoverSubBucket_def writeBucket_def Update_def
      CreateBucketIfNotExists_def Put_def Let_def)

text \<open>
  C3. A panic inside the enumeration of a sub-bucket of \<open>B\<close> changes nothing outside
  that sub-bucket. A call of \<^verbatim>\<open>recoverBucket\<close> on \<open>B\<close> stages the same pairs and
  sub-buckets, leaves the same destination and returns the same count and the same
  \<open>ok\<close> as a call on the store in which the enumeration of every sub-bucket of \<open>B\<close>
  completes after the entries it yielded: the entries of \<open>B\<close> and of its other
  sub-buckets, before and after the faulted one, are all there. The faulted
  sub-bucket is staged with exactly the value entries it yielded before the panic.
  Unless a panic leaves the read transaction of \<open>B\<close> itself, what is staged is every
  value entry of \<open>B\<close> and every sub-bucket found, each with the value entries it
  yielded, in the order of the source.
\<close>

theorem sub_bucket_fault_contained:
  assumes "txBucket src B = Found (Bucket es en)"
    and "txBucket src' B = Found (Bucket (healSubs es) en)"
  shows "snd (readBucket src B) = snd (readBucket src' B) \<and>
     db_after (recoverBucket src dst B) = db_after (recoverBucket src' dst B) \<and>
     keys_recovered (recoverBucket src dst B) = keys_recovered (recoverBucket src' dst B) \<and>
     bucket_ok (recoverBucket src dst B) = bucket_ok (recoverBucket src' dst B) \<and>
     fst (recoverSubBucket (Bucket ses (Panicked r)) B) = valuesOf ses \<and>
     (\<not> readPanics src B \<longrightarrow>
        (\<exists>err. snd (readBucket src B) = Inr (valuesOf es, subsOf es, err)))"
proof -
  have "snd (readBucket src B) = snd (readBucket src' B)"
    using assms by (simp add: readBucket_staged healSubs_same split: option.splits ending.splits)
  moreover have "\<exists>err. snd (readBucket src B) = Inr (valuesOf es, subsOf es, err)"
    if "\<not> readPanics src B"
    using that assms(1)
    by (auto simp: readBucket_staged readPanics_def split: option.splits ending.splits)
  ultimately show ?thesis using recoverBucket_read [of src B src' dst]
    by (simp add: recoverSubBucket_pairs)
qed

theorem sub_bucket_fault_contained_witness:
  "db_after (recoverBucket settings freshDst ''settings'') =
     db_after (recoverBucket settingsHealed freshDst ''settings'') \<and>
   keys_recovered (recoverBucket settings freshDst ''settings'') = 3 \<and>
   bucket_ok (recoverBucket settings freshDst ''settings'') \<and>
   fst (recoverSubBucket (Bucket [(''url'', Value ''x'')] (Panicked ''page 202'')) ''settings'') =
     [\<lparr>key = ''url'', val = ''x''\<rparr>] \<and>
   (\<exists>err. snd (readBucket settings ''settings'') =
      Inr ([\<lparr>key = ''version'', val = ''2''\<rparr>],
           [\<lparr>name = ''ldap'', data = [\<lparr>key = ''url'', val = ''x''\<rparr>]\<rparr>,
            \<lparr>name = ''oauth'', data = [\<lparr>key = ''id'', val = []\<rparr>]\<rparr>], err))"
proof -
  let ?es = "[(''version'', Value ''2''),
     (''ldap'', Marker (Found (Bucket [(''url'', Value ''x'')] (Panicked ''page 202'')))),
     (''oauth'', Marker (Found (Bucket [(''id'', Value [])] Completed)))]"
  have 1: "txBucket settings ''settings'' = Found (Bucket ?es Completed)"
    by (simp add: settings_def)
  have 2: "txBucket settingsHealed ''settings'' = Found (Bucket (healSubs ?es) Completed)"
    by (simp add: settingsHealed_def)
  have 3: "keys_recovered (recoverBucket settingsHealed freshDst ''settings'') = 3"
    "bucket_ok (recoverBucket settingsHealed freshDst ''settings'')"
    by (simp_all add: settingsHealed_def recoverBucket_def readBucket_def
      freshDst_def recoverSubBucket_def writeBucket_def Update_def
      CreateBucketIfNotExists_def Put_def Let_def)
  have 4: "\<not> readPanics settings ''settings''"
    by (simp add: readPanics_def settings_def)
  note t = sub_bucket_fault_contained [OF 1 2, of freshDst "[(''url'', Value ''x'')]" "''page 202''"]
  have a: "db_after (recoverBucket settings freshDst ''settings'') =
      db_after (recoverBucket settingsHealed freshDst ''settings'')"
    using t by blast
  have b: "keys_recovered (recoverBucket settings freshDst ''settings'') = 3"
    "bucket_ok (recoverBucket settings freshDst ''settings'')"
    using t 3 by simp_all
  have c: "fst (recoverSubBucket (Bucket [(''url'', Value ''x'')] (Panicked ''page 202''))
      ''settings'') = [\<lparr>key = ''url'', val = ''x''\<rparr>]"
    using t by simp
  have "\<exists>err. snd (readBucket settings ''settings'') = Inr (valuesOf ?es, subsOf ?es, err)"
    using t 4 by blast
  then have d: "\<exists>err. snd (readBucket settings ''settings'') =
      Inr ([\<lparr>key = ''version'', val = ''2''\<rparr>],
           [\<lparr>name = ''ldap'', data = [\<lparr>key = ''url'', val = ''x''\<rparr>]\<rparr>,
            \<lparr>name = ''oauth'', data = [\<lparr>key = ''id'', val = []\<rparr>]\<rparr>], err)"
    by simp
  show ?thesis using a b c d by blast
qed

text \<open>
  C4. A fault of a top-level bucket \<open>B\<close> stays in \<open>B\<close>. Take two source stores that
  list the same names and differ at most in what the bucket named \<open>B\<close> does (in one
  it faults, in the other it does not). After a run on each, into the same
  destination, every bucket of the destination with another name than \<open>B\<close> has the
  same contents; and the loop is never cut short: \<^verbatim>\<open>recoverBucket\<close> is entered for
  every listed name, in order.
\<close>

theorem top_level_fault_isolated:
  assumes "length args = 3" and "names_end s = Completed" and "names_end s' = Completed"
    and "names s' = names s" and "\<forall>m. m \<noteq> B \<longrightarrow> txBucket s' m = txBucket s m"
  shows "\<exists>d1 d2. store (main args (Inr s) (Inr d)) = Some d1 \<and>
           store (main args (Inr s') (Inr d)) = Some d2 \<and>
           (\<forall>n. n \<noteq> B \<longrightarrow> root d1 n = root d2 n) \<and>
           visited (printed (main args (Inr s) (Inr d))) = names s"
proof -
  let ?l1 = "mainLoop s (names s) d 0 0 [FoundBuckets (length (names s))]"
  let ?l2 = "mainLoop s' (names s) d 0 0 [FoundBuckets (length (names s))]"
  have 1: "store (main args (Inr s) (Inr d)) = Some (fst ?l1)"
    using assms(1,2) by (simp add: main_def Let_def split: prod.splits)
  have 2: "store (main args (Inr s') (Inr d)) = Some (fst ?l2)"
    using assms(1,3,4) by (simp add: main_def Let_def split: prod.splits)
  have 3: "\<forall>n. n \<noteq> B \<longrightarrow> root (fst ?l1) n = root (fst ?l2) n"
    using mainLoop_isolated [OF assms(5) refl refl refl] by simp
  have "printed (main args (Inr s) (Inr d)) =
      snd (snd (snd ?l1)) @ [Summary (fst (snd ?l1)) (fst (snd (snd ?l1))) (length (names s)) (args ! 2)]"
    using assms(1,2) by (simp add: main_def Let_def split: prod.splits)
  then have 4: "visited (printed (main args (Inr s) (Inr d))) = names s"
    by (simp add: visited_append mainLoop_visited)
  show ?thesis using 1 2 3 4 by blast
qed

theorem top_level_fault_isolated_witness:
  "names healthyAB = names faultyAB \<and>
   (\<exists>d1 d2. store (main [''salvage'', ''in.db'', ''out.db''] (Inr faultyAB) (Inr freshDst)) = Some d1 \<and>
      store (main [''salvage'', ''in.db'', ''out.db''] (Inr healthyAB) (Inr freshDst)) = Some d2 \<and>
      root d1 ''a'' = root d2 ''a'') \<and>
   visited (printed (main [''salvage'', ''in.db'', ''out.db''] (Inr faultyAB) (Inr freshDst))) =
     [''a'', ''b'']"
proof -
  have h: "\<forall>m. m \<noteq> ''b'' \<longrightarrow> txBucket healthyAB m = txBucket faultyAB m"
    by (simp add: healthyAB_def faultyAB_def)
  have n: "names healthyAB = names faultyAB" by (simp add: healthyAB_def faultyAB_def)
  have e: "names_end faultyAB = Completed" "names_end healthyAB = Completed"
    by (simp_all add: healthyAB_def faultyAB_def)
  have l: "length [''salvage'', ''in.db'', ''out.db''] = 3" by simp
  from top_level_fault_isolated [OF l e n h, of freshDst]
  obtain d1 d2 where
    "store (main [''salvage'', ''in.db'', ''out.db''] (Inr faultyAB) (Inr freshDst)) = Some d1"
    "store (main [''salvage'', ''in.db'', ''out.db''] (Inr healthyAB) (Inr freshDst)) = Some d2"
    "\<forall>n. n \<noteq> ''b'' \<longrightarrow> root d1 n = root d2 n"
    "visited (printed (main [''salvage'', ''in.db'', ''out.db''] (Inr faultyAB) (Inr freshDst))) =
       names faultyAB"
    by blast
  moreover have "names faultyAB = [''a'', ''b'']" by (simp add: faultyAB_def)
  ultimately show ?thesis using n by auto
qed

text \<open>
  C5. Nothing below a sub-bucket is recovered. A marker among the entries of a
  sub-bucket is skipped whatever lies under it: \<^verbatim>\<open>recoverSubBucket\<close> stages the value
  entries around it and prints nothing for it, and the whole call of
  \<^verbatim>\<open>recoverBucket\<close> (destination, count, \<open>ok\<close>, printed text) is the one on the store
  without that marker. So the deeper bucket does not reach the destination, and
  skipping it is no fault.
\<close>

theorem deeper_nesting_skipped:
  assumes "txBucket src B =
      Found (Bucket (pre @ (s, Marker (Found (Bucket (es1 @ (k, Marker l) # es2) en))) # post) e0)"
    and "txBucket src' B =
      Found (Bucket (pre @ (s, Marker (Found (Bucket (es1 @ es2) en))) # post) e0)"
  shows "recoverBucket src dst B = recoverBucket src' dst B \<and>
     recoverSubBucket (Bucket (es1 @ (k, Marker l) # es2) en) B =
       (valuesOf (es1 @ es2), snd (recoverSubBucket (Bucket (es1 @ es2) en) B))"
proof -
  have "readBucket src B = readBucket src' B"
    using assms
    by (simp add: readBucket_def topForEach_append recoverSubBucket_skips_marker
        split: prod.splits sum.splits)
  then have "recoverBucket src dst B = recoverBucket src' dst B"
    by (simp add: recoverBucket_def)
  moreover have "recoverSubBucket (Bucket (es1 @ (k, Marker l) # es2) en) B =
       (valuesOf (es1 @ es2), snd (recoverSubBucket (Bucket (es1 @ es2) en) B))"
    using recoverSubBucket_pairs [of "Bucket (es1 @ es2) en" B]
    by (simp add: recoverSubBucket_skips_marker prod_eq_iff)
  ultimately show ?thesis by simp
qed

theorem deeper_nesting_skipped_witness:
  "recoverBucket deepSrc freshDst ''stacks'' = recoverBucket shallowSrc freshDst ''stacks'' \<and>
   keys_recovered (recoverBucket deepSrc freshDst ''stacks'') = 2 \<and>
   text_printed (recoverBucket deepSrc freshDst ''stacks'') =
     [Recovering ''stacks'', BucketOK 0 1] \<and>
   root (db_after (recoverBucket deepSrc freshDst ''stacks'')) ''stacks'' =
     Some (Sub [''env'' \<mapsto> Sub [''a'' \<mapsto> Leaf ''1'', ''b'' \<mapsto> Leaf ''2'']])"
proof -
  have 1: "txBucket deepSrc ''stacks'' =
      Found (Bucket ([] @ (''env'', Marker (Found (Bucket
        ([(''a'', Value ''1'')] @
         (''inner'', Marker (Found (Bucket [(''secret'', Value ''s'')] Completed))) #
         [(''b'', Value ''2'')]) Completed))) # []) Completed)"
    by (simp add: deepSrc_def)
  have 2: "txBucket shallowSrc ''stacks'' =
      Found (Bucket ([] @ (''env'', Marker (Found (Bucket
        ([(''a'', Value ''1'')] @ [(''b'', Value ''2'')]) Completed))) # []) Completed)"
    by (simp add: shallowSrc_def)
  have 3: "keys_recovered (recoverBucket shallowSrc freshDst ''stacks'') = 2"
    "text_printed (recoverBucket shallowSrc freshDst ''stacks'') =
       [Recovering ''stacks'', BucketOK 0 1]"
    "root (db_after (recoverBucket shallowSrc freshDst ''stacks'')) ''stacks'' =
       Some (Sub [''env'' \<mapsto> Sub [''a'' \<mapsto> Leaf ''1'', ''b'' \<mapsto> Leaf ''2'']])"
    by (simp_all add: shallowSrc_def recoverBucket_def readBucket_def
      freshDst_def recoverSubBucket_def writeBucket_def Update_def
      CreateBucketIfNotExists_def Put_def Let_def)
  show ?thesis using deeper_nesting_skipped [OF 1 2, of freshDst] 3 by simp
qed

text \<open>
  C6. A \<^verbatim>\<open>Put\<close> that fails is skipped and the transaction goes on, but not always
  with a warning: the loop on the direct entries prints one (line 142), the loop on
  the entries of a sub-bucket does not (lines 155 to 157). In the store \<open>emptyKeys\<close>
  two writes are refused, one in each loop. Both are skipped, every other entry is
  written and the bucket counts as recovered, yet a single warning is printed.
\<close>

theorem sub_bucket_write_failure_is_silent:
  "text_printed (recoverBucket emptyKeys freshDst ''b'') =
     [Recovering ''b'', WarnKey KeyRequired, BucketOK 2 1] \<and>
   keys_recovered (recoverBucket emptyKeys freshDst ''b'') = 2 \<and>
   bucket_ok (recoverBucket emptyKeys freshDst ''b'') \<and>
   root (db_after (recoverBucket emptyKeys freshDst ''b'')) ''b'' =
     Some (Sub [''k'' \<mapsto> Leaf ''v'', ''s'' \<mapsto> Sub [''j'' \<mapsto> Leaf ''w'']])"
  by (simp add: emptyKeys_def recoverBucket_def readBucket_def freshDst_def
      recoverSubBucket_def writeBucket_def Update_def CreateBucketIfNotExists_def Put_def
      Let_def)

text \<open>
  C7, as the program has it. An entry with an empty value is copied as a key with an
  empty value, and is not taken for a bucket, whenever its write reaches the
  destination. Let the read transaction of \<open>B\<close> end without a panic, the keys of
  \<open>B\<close> be distinct, the destination be fresh at \<open>B\<close>, its transaction succeed and
  \<^verbatim>\<open>Put\<close> accept the key \<open>k\<close> with the empty value. Then an entry \<open>(k, [])\<close> of \<open>B\<close>
  is in the destination bucket \<open>B\<close> as \<open>k\<close> with the value \<open>[]\<close>; and an entry
  \<open>(k, [])\<close> of a sub-bucket \<open>s\<close> of \<open>B\<close> (with distinct keys and an accepted name)
  is in the destination under \<open>B\<close>, \<open>s\<close> as \<open>k\<close> with the value \<open>[]\<close>.
\<close>

theorem empty_value_recovered:
  assumes "txBucket src B = Found (Bucket es en)" and "\<not> readPanics src B"
    and "distinct (map fst es)"
    and "txFault dst B = None" and "nameCheck dst B = None" and "root dst B = None"
    and "putCheck dst k [] = None"
  shows "((k, Value []) \<in> set es \<longrightarrow>
       (\<exists>b. root (db_after (recoverBucket src dst B)) B = Some (Sub b) \<and> b k = Some (Leaf []))) \<and>
     (\<forall>s ses sen. (s, Marker (Found (Bucket ses sen))) \<in> set es \<and> (k, Value []) \<in> set ses \<and>
         distinct (map fst ses) \<and> nameCheck dst s = None \<longrightarrow>
       (\<exists>b c. root (db_after (recoverBucket src dst B)) B = Some (Sub b) \<and>
          b s = Some (Sub c) \<and> c k = Some (Leaf [])))"
  using value_entry_recovered [OF assms] sub_value_entry_recovered [OF assms] by blast

theorem empty_value_recovered_witness:
  "(\<exists>b. root (db_after (recoverBucket emptyVals freshDst ''cfg'')) ''cfg'' = Some (Sub b) \<and>
      b ''motd'' = Some (Leaf [])) \<and>
   (\<exists>b c. root (db_after (recoverBucket emptyVals freshDst ''cfg'')) ''cfg'' = Some (Sub b) \<and>
      b ''sub'' = Some (Sub c) \<and> c ''flag'' = Some (Leaf []))"
proof -
  let ?es = "[(''motd'', Value []),
     (''sub'', Marker (Found (Bucket [(''flag'', Value [])] Completed)))]"
  have 1: "txBucket emptyVals ''cfg'' = Found (Bucket ?es Completed)"
    by (simp add: emptyVals_def)
  have 2: "\<not> readPanics emptyVals ''cfg''" by (simp add: readPanics_def emptyVals_def)
  have 3: "distinct (map fst ?es)" by simp
  have 4: "txFault freshDst ''cfg'' = None" "nameCheck freshDst ''cfg'' = None"
    "root freshDst ''cfg'' = None"
    by (simp_all add: freshDst_def)
  have 5: "putCheck freshDst ''motd'' [] = None" "putCheck freshDst ''flag'' [] = None"
    by (simp_all add: freshDst_def)
  have 6: "nameCheck freshDst ''sub'' = None" by (simp add: freshDst_def)
  have a: "\<exists>b. root (db_after (recoverBucket emptyVals freshDst ''cfg'')) ''cfg'' = Some (Sub b) \<and>
      b ''motd'' = Some (Leaf [])"
    using empty_value_recovered [OF 1 2 3 4 5(1)] by simp
  have b: "\<exists>b c. root (db_after (recoverBucket emptyVals freshDst ''cfg'')) ''cfg'' = Some (Sub b) \<and>
      b ''sub'' = Some (Sub c) \<and> c ''flag'' = Some (Leaf [])"
    using empty_value_recovered [OF 1 2 3 4 5(2)] 6 by simp
  show ?thesis using a b by (rule conjI)
qed

text \<open>
  C7 as stated fails: not every entry with an empty value reaches the destination.
  When the commit of the transaction fails, the bucket \<open>cfg\<close> of \<open>emptyVals\<close> is
  staged with its two empty values and nothing of it is in the destination. When
  \<^verbatim>\<open>Put\<close> refuses the key, as it does the empty key of \<open>emptyKeyVal\<close>, that entry is
  skipped and only the other one is written.
\<close>

theorem empty_value_not_always_recovered:
  "snd (readBucket emptyVals ''cfg'') =
     Inr ([\<lparr>key = ''motd'', val = []\<rparr>],
          [\<lparr>name = ''sub'', data = [\<lparr>key = ''flag'', val = []\<rparr>]\<rparr>], None) \<and>
   root (db_after (recoverBucket emptyVals noCommit ''cfg'')) ''cfg'' = None \<and>
   snd (readBucket emptyKeyVal ''cfg'') =
     Inr ([\<lparr>key = [], val = []\<rparr>, \<lparr>key = ''motd'', val = []\<rparr>], [], None) \<and>
   root (db_after (recoverBucket emptyKeyVal freshDst ''cfg'')) ''cfg'' =
     Some (Sub [''motd'' \<mapsto> Leaf []]) \<and>
   text_printed (recoverBucket emptyKeyVal freshDst ''cfg'') =
     [Recovering ''cfg'', WarnKey KeyRequired, BucketOK 2 0]"
  by (simp add: emptyVals_def emptyKeyVal_def noCommit_def recoverBucket_def readBucket_def
      freshDst_def recoverSubBucket_def writeBucket_def Update_def
      CreateBucketIfNotExists_def Put_def Let_def)

text \<open>
  C9, as the program has it. When the read transaction of a listed bucket \<open>B\<close>
  returns an ordinary error (the bucket is not found, or the enumeration returns an
  error without a panic), the write transaction still runs. Provided that
  transaction itself does not fail (it begins and commits, and the name is
  accepted), the destination holds a bucket \<open>B\<close> afterwards, \<^verbatim>\<open>recoverBucket\<close>
  returns \<open>ok = true\<close>, the read error is printed, and the loop of \<^verbatim>\<open>main\<close> goes on
  with the count of failed buckets unchanged.
\<close>

theorem read_error_still_writes:
  assumes "txBucket src B = NotFound \<or>
      (\<exists>es e. txBucket src B = Found (Bucket es (Failed e)) \<and> firstPanic es = None)"
    and "txFault dst B = None" and "nameCheck dst B = None"
    and "\<forall>v. root dst B \<noteq> Some (Leaf v)"
  shows "bucket_ok (recoverBucket src dst B) \<and>
     (\<exists>b. root (db_after (recoverBucket src dst B)) B = Some (Sub b)) \<and>
     (\<exists>e. ReadError B e \<in> set (text_printed (recoverBucket src dst B))) \<and>
     mainLoop src (B # rest) dst totalKeys failedBuckets out =
       mainLoop src rest (db_after (recoverBucket src dst B))
         (totalKeys + keys_recovered (recoverBucket src dst B)) failedBuckets
         (out @ text_printed (recoverBucket src dst B))"
proof -
  have "\<exists>pairs subs e. snd (readBucket src B) = Inr (pairs, subs, Some e)"
    using assms(1) by (auto simp: readBucket_staged)
  then obtain said pairs subs e where r: "readBucket src B = (said, Inr (pairs, subs, Some e))"
    by (cases "readBucket src B") auto
  obtain b n said' where
    w: "writeBucket dst B pairs subs (root dst) = ((root dst)(B \<mapsto> Sub b), n, said', None)"
    using writeBucket_created [of dst B "root dst" pairs subs] assms(3,4) by blast
  have u: "Update dst (txFault dst B) (writeBucket dst B pairs subs) =
      (dst\<lparr>root := (root dst)(B \<mapsto> Sub b)\<rparr>, n, said', None)"
    using Update_commits [of "writeBucket dst B pairs subs" dst] w assms(2) by simp
  note rb = recoverBucket_returned [OF r u]
  have ok: "bucket_ok (recoverBucket src dst B)" using rb by simp
  have "root (db_after (recoverBucket src dst B)) B = Some (Sub b)" using rb by simp
  moreover have "ReadError B e \<in> set (text_printed (recoverBucket src dst B))" using rb by simp
  moreover have "mainLoop src (B # rest) dst totalKeys failedBuckets out =
       mainLoop src rest (db_after (recoverBucket src dst B))
         (totalKeys + keys_recovered (recoverBucket src dst B)) failedBuckets
         (out @ text_printed (recoverBucket src dst B))"
    using ok by (simp add: Let_def)
  ultimately show ?thesis using ok by blast
qed

theorem read_error_still_writes_witness:
  "bucket_ok (recoverBucket settings freshDst ''ghost'') \<and>
   root (db_after (recoverBucket settings freshDst ''ghost'')) ''ghost'' = Some (Sub Map.empty) \<and>
   text_printed (recoverBucket settings freshDst ''ghost'') =
     [Recovering ''ghost'', ReadError ''ghost'' ''bucket not found'', BucketOK 0 0] \<and>
   summary (main salvageArgs (Inr settings) (Inr freshDst)) = Some (3, 0, 2) \<and>
   exit_status (main salvageArgs (Inr settings) (Inr freshDst)) = 0"
proof -
  have 1: "txBucket settings ''ghost'' = NotFound \<or>
      (\<exists>es e. txBucket settings ''ghost'' = Found (Bucket es (Failed e)) \<and> firstPanic es = None)"
    by (simp add: settings_def)
  have 2: "txFault freshDst ''ghost'' = None" "nameCheck freshDst ''ghost'' = None"
    "\<forall>v. root freshDst ''ghost'' \<noteq> Some (Leaf v)"
    by (simp_all add: freshDst_def)
  have "bucket_ok (recoverBucket settings freshDst ''ghost'')"
    using read_error_still_writes [OF 1 2] by simp
  then show ?thesis
    by (simp add: main_def salvageArgs_def settings_def recoverBucket_def readBucket_def
      freshDst_def recoverSubBucket_def writeBucket_def Update_def
      CreateBucketIfNotExists_def Put_def Let_def)
qed

text \<open>
  C9 as stated fails: after a read error the bucket is reported as recovered only if
  its write transaction succeeds. In the store \<open>settings\<close> the bucket \<open>ghost\<close> is not
  found; into a destination where the transaction for \<open>ghost\<close> fails at its commit,
  the call returns \<open>ok = false\<close>, no bucket \<open>ghost\<close> is created, the count of failed
  buckets is 1 and the exit status is 1.
\<close>

theorem read_error_then_write_fails:
  "\<not> bucket_ok (recoverBucket settings ghostDisk ''ghost'') \<and>
   root (db_after (recoverBucket settings ghostDisk ''ghost'')) ''ghost'' = None \<and>
   text_printed (recoverBucket settings ghostDisk ''ghost'') =
     [Recovering ''ghost'', ReadError ''ghost'' ''bucket not found'',
      WriteError ''ghost'' (TxError ''disk full'')] \<and>
   summary (main salvageArgs (Inr settings) (Inr ghostDisk)) = Some (3, 1, 2) \<and>
   exit_status (main salvageArgs (Inr settings) (Inr ghostDisk)) = 1"
  by (simp add: main_def salvageArgs_def settings_def ghostDisk_def recoverBucket_def
      readBucket_def recoverSubBucket_def writeBucket_def Update_def
      CreateBucketIfNotExists_def Put_def Let_def)

text \<open>
  C10, as the program has it. The counter moves once for every \<^verbatim>\<open>Put\<close> that returns
  nil and never otherwise, so the total of the summary never exceeds the number of
  value entries staged from the listed buckets. When no key is yielded twice, the
  destination starts empty and no write transaction fails at its commit, the total
  is the number of key/value entries present in the destination at the end,
  whichever single writes, bucket names or transactions are refused on the way: what
  is refused is not counted.
\<close>

theorem total_counts_successful_puts:
  assumes "length args = 3" and "names_end s = Completed"
  shows "\<exists>d' t f. store (main args (Inr s) (Inr d)) = Some d' \<and>
     summary (main args (Inr s) (Inr d)) = Some (t, f, length (names s)) \<and>
     t \<le> sum_list (map (stagedCount s) (names s)) \<and>
     (noRepeatedKey s \<and> root d = Map.empty \<and> (\<forall>n e. txFault d n \<noteq> Some (CommitFails e)) \<longrightarrow>
        t = storeEntries (root d'))"
proof -
  let ?l = "mainLoop s (names s) d 0 0 [FoundBuckets (length (names s))]"
  have 1: "store (main args (Inr s) (Inr d)) = Some (fst ?l)"
    using assms by (simp add: main_def Let_def split: prod.splits)
  have 2: "summary (main args (Inr s) (Inr d)) =
      Some (fst (snd ?l), fst (snd (snd ?l)), length (names s))"
    using assms by (simp add: main_def Let_def split: prod.splits)
  have 3: "fst (snd ?l) \<le> sum_list (map (stagedCount s) (names s))"
    using mainLoop_le [of s "names s" d 0] by simp
  have 4: "fst (snd ?l) = storeEntries (root (fst ?l))"
    if c: "noRepeatedKey s" and e: "root d = Map.empty"
      and t: "\<forall>n e. txFault d n \<noteq> Some (CommitFails e)"
  proof -
    have "fst (snd ?l) + storeEntries (root d) = 0 + storeEntries (root (fst ?l))"
    proof (rule mainLoop_count)
      show "distinct (names s)" using c by (simp add: noRepeatedKey_def)
      show "set (names s) \<inter> dom (root d) = {}" using e by simp
      show "finite (dom (root d))" using e by simp
      show "\<forall>n e. txFault d n \<noteq> Some (CommitFails e)" by (rule t)
      show "\<forall>n \<in> set (names s). case txBucket s n of
          Found b \<Rightarrow> distinct (map fst (entries b)) \<and> subsDistinct (entries b) | _ \<Rightarrow> True"
        using c by (simp add: noRepeatedKey_def)
    qed
    then show ?thesis using e by (simp add: storeEntries_empty)
  qed
  show ?thesis using 1 2 3 4 by blast
qed

theorem total_counts_successful_puts_witness:
  "summary (main salvageArgs (Inr emptyKeys) (Inr freshDst)) = Some (2, 0, 1) \<and>
   sum_list (map (stagedCount emptyKeys) (names emptyKeys)) = 4 \<and>
   map_option (storeEntries \<circ> root) (store (main salvageArgs (Inr emptyKeys) (Inr freshDst))) =
     Some 2"
proof -
  have l: "length salvageArgs = 3" by (simp add: salvageArgs_def)
  have e: "names_end emptyKeys = Completed" by (simp add: emptyKeys_def)
  have c: "noRepeatedKey emptyKeys" by (simp add: noRepeatedKey_def emptyKeys_def)
  have f: "root freshDst = Map.empty" "\<forall>n e. txFault freshDst n \<noteq> Some (CommitFails e)"
    by (simp_all add: freshDst_def)
  have s: "summary (main salvageArgs (Inr emptyKeys) (Inr freshDst)) = Some (2, 0, 1)"
    by (simp add: main_def salvageArgs_def emptyKeys_def recoverBucket_def readBucket_def
      freshDst_def recoverSubBucket_def writeBucket_def Update_def
      CreateBucketIfNotExists_def Put_def Let_def)
  have g: "sum_list (map (stagedCount emptyKeys) (names emptyKeys)) = 4"
    by (simp add: stagedCount_def emptyKeys_def)
  from total_counts_successful_puts [OF l e, of freshDst]
  obtain d' t g where "store (main salvageArgs (Inr emptyKeys) (Inr freshDst)) = Some d'"
    "summary (main salvageArgs (Inr emptyKeys) (Inr freshDst)) =
       Some (t, g, length (names emptyKeys))"
    "noRepeatedKey emptyKeys \<and> root freshDst = Map.empty \<and>
       (\<forall>n e. txFault freshDst n \<noteq> Some (CommitFails e)) \<longrightarrow> t = storeEntries (root d')"
    by blast
  then show ?thesis using c f s g by simp
qed

text \<open>
  C10 as stated fails: the total can exceed the entries present in the destination.
  On a full disk the transaction for \<open>a\<close> fails at its commit after its two \<^verbatim>\<open>Put\<close>
  calls returned nil; the two stay counted (\<^verbatim>\<open>return recovered, false\<close>), the
  summary reports 3 keys, and the destination holds one entry.
\<close>

theorem total_exceeds_destination_entries:
  "summary (main salvageArgs (Inr healthyAB) (Inr fullDisk)) = Some (3, 1, 2) \<and>
   map_option (storeEntries \<circ> root) (store (main salvageArgs (Inr healthyAB) (Inr fullDisk))) =
     Some 1"
proof -
  have "storeEntries [''b'' \<mapsto> Sub [''k3'' \<mapsto> Leaf ''v3'']] = 1"
    by (simp add: storeEntries_def bucketEntries_def subKeys_upd_Sub subKeys_upd_Leaf
        leafKeys_upd_Leaf leafKeys_upd_Sub subKeys_empty leafKeys_empty subAt_upd_Sub)
  then show ?thesis
    by (simp add: main_def salvageArgs_def healthyAB_def recoverBucket_def readBucket_def
      fullDisk_def recoverSubBucket_def writeBucket_def Update_def
      CreateBucketIfNotExists_def Put_def Let_def)
qed

end
